theory Spec2Isabelle
  imports Main "HOL-Library.Word"
begin

section \<open>JavaScript strings\<close>

text \<open>
  A JavaScript string is a sequence of UTF-16 code units and \<open>length\<close> counts code
  units, so a string is modelled as a list of 16-bit words. \<open>js\<close> embeds an ASCII
  literal.
\<close>

type_synonym jschar = "16 word"
type_synonym jsstring = "jschar list"

definition js :: "string \<Rightarrow> jsstring" where
  "js s = map (\<lambda>c. of_nat (of_char c :: nat)) s"

text \<open>
  The code units removed by \<open>String.prototype.trim\<close> and skipped by \<open>parseInt\<close>:
  ECMAScript WhiteSpace and LineTerminator (TAB, LF, VT, FF, CR, SP, NBSP, U+1680,
  U+2000..U+200A, U+2028, U+2029, U+202F, U+205F, U+3000, U+FEFF).
\<close>

definition isWhiteSpace :: "jschar \<Rightarrow> bool" where
  "isWhiteSpace c \<longleftrightarrow>
     c = 0x09 \<or> c = 0x0A \<or> c = 0x0B \<or> c = 0x0C \<or> c = 0x0D \<or> c = 0x20 \<or> c = 0xA0 \<or>
     c = 0x1680 \<or> (0x2000 \<le> c \<and> c \<le> 0x200A) \<or> c = 0x2028 \<or> c = 0x2029 \<or>
     c = 0x202F \<or> c = 0x205F \<or> c = 0x3000 \<or> c = 0xFEFF"

definition trim :: "jsstring \<Rightarrow> jsstring" where
  "trim s = rev (dropWhile isWhiteSpace (rev (dropWhile isWhiteSpace s)))"

definition startsWith :: "jsstring \<Rightarrow> jsstring \<Rightarrow> bool" where
  "startsWith s p \<longleftrightarrow> take (length p) s = p"

definition endsWith :: "jsstring \<Rightarrow> jsstring \<Rightarrow> bool" where
  "endsWith s p \<longleftrightarrow> length p \<le> length s \<and> drop (length s - length p) s = p"

fun includesStr :: "jsstring \<Rightarrow> jsstring \<Rightarrow> bool" where
  "includesStr [] p = (p = [])"
| "includesStr (c # cs) p = (startsWith (c # cs) p \<or> includesStr cs p)"

text \<open>\<open>s.split(sep)\<close> for a separator of one code unit: never the empty list.\<close>

function split :: "jschar \<Rightarrow> jsstring \<Rightarrow> jsstring list" where
  "split sep s =
     takeWhile (\<lambda>c. c \<noteq> sep) s #
       (case dropWhile (\<lambda>c. c \<noteq> sep) s of [] \<Rightarrow> [] | _ # rest \<Rightarrow> split sep rest)"
  by pat_completeness auto
termination
proof (relation "measure (\<lambda>(sep, s). length s)")
  show "wf (measure (\<lambda>(sep, s). length s))" by simp
next
  fix sep :: jschar and s :: jsstring and x rest
  assume "dropWhile (\<lambda>c. c \<noteq> sep) s = x # rest"
  then have "length (x # rest) \<le> length s"
    using length_dropWhile_le [of "\<lambda>c. c \<noteq> sep" s] by simp
  then show "((sep, rest), (sep, s)) \<in> measure (\<lambda>(sep, s). length s)" by simp
qed

declare split.simps [simp del]

section \<open>The post composer (services/gemini.ts)\<close>

subsection \<open>Errors and the text-completion provider\<close>

text \<open>
  The errors the services throw, one constructor for each message of the source.
\<close>

datatype error =
    ApiKeyNotSet
  | ApiKeyInvalidOrNotEnabled
  | ApiKeyInvalidOrExpired
  | QuotaExceeded
  | FailedToGenerate
  | PostTooLong
  | ApiCredentialsRequired
  | AccessTokensRequired
  | CreditsDepleted
  | NoWritePermission
  | AuthenticationFailed
  | FailedToPost

text \<open>
  What one request to the provider does: \<open>getGenAI\<close> finds no API key, the request
  throws an error (with the error's message, if it has one), or it yields a text.
  The reply to a request is an argument of the model: the provider is a black box,
  and a property proved for every reply holds whatever the prompt was, so the prompt
  texts are not built.
\<close>

datatype reply = NoApiKey | Thrown "jsstring option" | Text jsstring

definition messageIncludes :: "jsstring option \<Rightarrow> jsstring \<Rightarrow> bool" where
  "messageIncludes m p = (case m of None \<Rightarrow> False | Some s \<Rightarrow> includesStr s p)"

definition stripQuotes :: "jschar \<Rightarrow> jsstring \<Rightarrow> jsstring" where
  "stripQuotes q content =
     (if startsWith content [q] \<and> endsWith content [q] then butlast (tl content) else content)"

definition generateWithPrompt :: "reply \<Rightarrow> error + jsstring" where
  "generateWithPrompt r =
     (case r of
        NoApiKey \<Rightarrow> Inl ApiKeyNotSet
      | Thrown m \<Rightarrow>
          if messageIncludes m (js ''403'') \<or> messageIncludes m (js ''Forbidden'')
            then Inl ApiKeyInvalidOrNotEnabled
          else if messageIncludes m (js ''401'') \<or> messageIncludes m (js ''Unauthorized'')
            then Inl ApiKeyInvalidOrExpired
          else if messageIncludes m (js ''429'') \<or> messageIncludes m (js ''quota'')
            then Inl QuotaExceeded
          else Inl FailedToGenerate
      | Text text \<Rightarrow>
          Inr (trim (stripQuotes 0x27 (stripQuotes 0x22 (trim text)))))"

definition generateSummary :: "reply \<Rightarrow> error + jsstring" where
  "generateSummary r = generateWithPrompt r"

subsection \<open>The truncation fallback\<close>

definition isTerminator :: "jschar \<Rightarrow> bool" where
  "isTerminator c \<longleftrightarrow> c = 0x2E \<or> c = 0x21 \<or> c = 0x3F"

text \<open>
  \<open>post.match(/[^.!?]+[.!?]+/g) || []\<close>: the matches from left to right. A match
  cannot start at a terminator; from the first other code unit it takes the longest
  run of non-terminators and then the longest run of terminators, and there is none
  when the run of non-terminators reaches the end of the text.
\<close>

function sentences :: "jsstring \<Rightarrow> jsstring list" where
  "sentences s =
     (let s1 = dropWhile isTerminator s;
          body = takeWhile (\<lambda>c. \<not> isTerminator c) s1;
          s2 = dropWhile (\<lambda>c. \<not> isTerminator c) s1;
          terms = takeWhile isTerminator s2;
          s3 = dropWhile isTerminator s2
      in if body = [] \<or> terms = [] then [] else (body @ terms) # sentences s3)"
  by pat_completeness auto
termination
proof (relation "measure length")
  show "wf (measure length)" by simp
next
  fix s s1 body s2 terms s3 :: jsstring
  assume s1: "s1 = dropWhile isTerminator s"
    and body: "body = takeWhile (\<lambda>c. \<not> isTerminator c) s1"
    and s2: "s2 = dropWhile (\<lambda>c. \<not> isTerminator c) s1"
    and s3: "s3 = dropWhile isTerminator s2"
    and ne: "\<not> (body = [] \<or> terms = [])"
  have "length s1 = length body + length s2"
    using takeWhile_dropWhile_id [of "\<lambda>c. \<not> isTerminator c" s1]
    by (metis body s2 length_append)
  moreover have "length s3 \<le> length s2"
    unfolding s3 by (rule length_dropWhile_le)
  moreover have "length s1 \<le> length s"
    unfolding s1 by (rule length_dropWhile_le)
  moreover have "1 \<le> length body" using ne by (cases body) auto
  ultimately have "length s3 < length s" by linarith
  then show "(s3, s) \<in> measure length" by simp
qed

declare sentences.simps [simp del]

text \<open>The loop over the sentences: \<open>truncated\<close> grows while \<open>test\<close> fits.\<close>

fun accumulateSentences :: "int \<Rightarrow> jsstring \<Rightarrow> jsstring list \<Rightarrow> jsstring" where
  "accumulateSentences maxPostLength truncated [] = truncated"
| "accumulateSentences maxPostLength truncated (sentence # rest) =
     (let test = truncated @ sentence
      in if int (length test) \<le> maxPostLength
         then accumulateSentences maxPostLength test rest
         else truncated)"

text \<open>The loop over the words; an empty \<open>truncated\<close> is falsy and gets no space.\<close>

fun accumulateWords :: "int \<Rightarrow> jsstring \<Rightarrow> jsstring list \<Rightarrow> jsstring" where
  "accumulateWords maxPostLength truncated [] = truncated"
| "accumulateWords maxPostLength truncated (word # rest) =
     (let test = truncated @ (if truncated \<noteq> [] then [0x20] else []) @ word
      in if int (length test) \<le> maxPostLength
         then accumulateWords maxPostLength test rest
         else truncated)"

text \<open>The body of the final check of \<open>generatePost\<close>, run when the post is too long.\<close>

definition truncatePost :: "int \<Rightarrow> jsstring \<Rightarrow> jsstring" where
  "truncatePost maxPostLength post =
     (let truncated = accumulateSentences maxPostLength [] (sentences post)
      in if truncated \<noteq> [] then trim truncated
         else trim (accumulateWords maxPostLength [] (split 0x20 post)))"

subsection \<open>generatePost\<close>

text \<open>
  \<open>characterLimit\<close> is the integer read from \<open>X_CHARACTER_LIMIT\<close> (280 when unset).
  A setting that \<open>parseInt\<close> reads as \<open>NaN\<close> is not an integer and is left out: every
  comparison with it is false, so no prefix fits within such a limit. A project name
  that is undefined or empty is falsy and gives no prefix. \<open>reply1\<close> is the
  provider's reply to the first prompt, \<open>reply2\<close> its reply to the stricter prompt,
  which is only requested when the first post is too long.
\<close>

definition prefixOf :: "jsstring option \<Rightarrow> jsstring" where
  "prefixOf projectName =
     (case projectName of
        None \<Rightarrow> []
      | Some n \<Rightarrow> if n = [] then [] else n @ js '' Updates'' @ [0x0A, 0x0A])"

definition finalCheck :: "int \<Rightarrow> jsstring \<Rightarrow> jsstring" where
  "finalCheck maxPostLength post =
     (if int (length post) > maxPostLength then truncatePost maxPostLength post else post)"

definition stricterRetry :: "int \<Rightarrow> reply \<Rightarrow> jsstring \<Rightarrow> error + jsstring" where
  "stricterRetry maxPostLength reply2 post =
     (if int (length post) > maxPostLength then
        (case generateWithPrompt reply2 of Inl e \<Rightarrow> Inl e | Inr post2 \<Rightarrow> Inr (trim post2))
      else Inr post)"

definition generatePost ::
  "int \<Rightarrow> reply \<Rightarrow> reply \<Rightarrow> jsstring option \<Rightarrow> error + jsstring" where
  "generatePost characterLimit reply1 reply2 projectName =
     (let prefix = prefixOf projectName;
          maxPostLength = characterLimit - int (length prefix)
      in case generateWithPrompt reply1 of
           Inl e \<Rightarrow> Inl e
         | Inr post1 \<Rightarrow>
             (case stricterRetry maxPostLength reply2 (trim post1) of
                Inl e \<Rightarrow> Inl e
              | Inr post \<Rightarrow> Inr (prefix @ finalCheck maxPostLength post)))"

section \<open>The commit source (services/github.ts)\<close>

record commitFile =
  filename :: jsstring
  status :: jsstring
  additions :: int
  deletions :: int
  changes :: int
  patch :: "jsstring option"

record commitInfo =
  sha :: jsstring
  message :: jsstring
  date :: jsstring
  url :: jsstring
  repo :: jsstring
  files :: "commitFile list option"

section \<open>The publisher (services/xApi.ts)\<close>

text \<open>
  What the posting provider does with one request: the credentials are missing
  (\<open>getClient\<close> throws), the tweet is sent, or the request fails with an optional
  error code and possibly the title \<open>CreditsDepleted\<close>. A failure that \<open>postToX\<close>
  rethrows as it is stands for \<open>FailedToPost\<close>. The check of the length comes first
  and involves no request.
\<close>

datatype xOutcome =
  MissingApiKey | MissingAccessToken | Tweeted | TweetFailed "int option" bool

definition postToX :: "int \<Rightarrow> xOutcome \<Rightarrow> jsstring \<Rightarrow> error option" where
  "postToX characterLimit outcome text =
     (if int (length text) > characterLimit then Some PostTooLong
      else case outcome of
             MissingApiKey \<Rightarrow> Some ApiCredentialsRequired
           | MissingAccessToken \<Rightarrow> Some AccessTokensRequired
           | Tweeted \<Rightarrow> None
           | TweetFailed code creditsDepleted \<Rightarrow>
               if code = Some 402 \<or> creditsDepleted then Some CreditsDepleted
               else if code = Some 403 then Some NoWritePermission
               else if code = Some 401 then Some AuthenticationFailed
               else Some FailedToPost)"

section \<open>The session store and the poller (services/discord.ts)\<close>

subsection \<open>State, configuration and what a handler does to the outside\<close>

record userState =
  commits :: "commitInfo list"
  selectedCommits :: "commitInfo list"
  generatedSummary :: "jsstring option"
  generatedPost :: "jsstring option"
  projectName :: "jsstring option"
  pendingPost :: "bool option"

text \<open>The two module-level maps: \<open>userStates\<close> and \<open>lastCheckedCommits\<close>.\<close>

record botState =
  userStates :: "jsstring \<rightharpoonup> userState"
  lastCheckedCommits :: "jsstring \<rightharpoonup> jsstring"

definition initialState :: botState where
  "initialState = \<lparr>userStates = Map.empty, lastCheckedCommits = Map.empty\<rparr>"

text \<open>
  The environment: the variables of \<open>process.env\<close> that the handlers read, the
  character limit as the integer \<open>parseInt\<close> reads from it, and the two case
  mappings of the JavaScript library, which are parameters here.
\<close>

record config =
  DISCORD_CHANNEL_ID :: jsstring
  DISCORD_DEFAULT_PROJECT_NAME :: "jsstring option"
  GITHUB_REPOS :: "jsstring option"
  X_CHARACTER_LIMIT :: int
  toUpperCase :: "jsstring \<Rightarrow> jsstring"
  toLowerCase :: "jsstring \<Rightarrow> jsstring"

text \<open>A string that is undefined, null or empty is falsy.\<close>

definition truthy :: "jsstring option \<Rightarrow> bool" where
  "truthy v = (case v of None \<Rightarrow> False | Some str \<Rightarrow> str \<noteq> [])"

text \<open>
  The messages the bot writes, by kind, and the calls a handler makes to the
  outside, in the order in which it makes them. The display-only shortening of a
  summary and the splitting of a long reply are not modelled.
\<close>

datatype outMsg =
    HelpText
  | ReposNotConfigured
  | NoCommitsFound
  | LatestCommits "commitInfo list"
  | PleaseRunFirst
  | InvalidCommitNumbers
  | SummaryAndPost jsstring jsstring
  | ErrorReply error
  | NoPostToRegenerate
  | CannotRegenerate
  | RegeneratedPost jsstring
  | PostDiscarded
  | NoPostToDiscard
  | NoPostGenerated
  | PostedToX
  | ErrorPosting error
  | NewCommitDetected jsstring jsstring
  | ErrorGeneratingPost error

datatype effect =
    Reply outMsg
  | Send outMsg
  | GenerateSummaryCall "commitInfo list"
  | GeneratePostCall jsstring jsstring
  | PostToXCall jsstring

text \<open>
  What the outside answers while one handler runs: the commits that
  \<open>getRecentCommitsFromRepos\<close> returns, the provider's reply to the summary prompt
  and to the two post prompts, and the posting provider's outcome.
\<close>

record world =
  fetched :: "commitInfo list"
  summaryReply :: reply
  postReply1 :: reply
  postReply2 :: reply
  posting :: xOutcome

record discordMessage =
  authorId :: jsstring
  authorBot :: bool
  channelId :: jsstring
  content :: jsstring

subsection \<open>parseInt\<close>

definition digitValue :: "jschar \<Rightarrow> nat option" where
  "digitValue c =
     (if 0x30 \<le> c \<and> c \<le> 0x39 then Some (unat c - 0x30)
      else if 0x61 \<le> c \<and> c \<le> 0x7A then Some (unat c - 0x61 + 10)
      else if 0x41 \<le> c \<and> c \<le> 0x5A then Some (unat c - 0x41 + 10)
      else None)"

definition isRadixDigit :: "nat \<Rightarrow> jschar \<Rightarrow> bool" where
  "isRadixDigit radix c = (case digitValue c of None \<Rightarrow> False | Some v \<Rightarrow> v < radix)"

fun digitsValue :: "nat \<Rightarrow> int \<Rightarrow> jsstring \<Rightarrow> int" where
  "digitsValue radix acc [] = acc"
| "digitsValue radix acc (c # cs) =
     digitsValue radix (acc * int radix + int (case digitValue c of None \<Rightarrow> 0 | Some v \<Rightarrow> v)) cs"

text \<open>
  \<open>parseInt(str)\<close> without a radix; \<open>None\<close> is \<open>NaN\<close>. The value is the exact
  integer; JavaScript rounds it to a double beyond \<open>2^53\<close>, which changes no
  comparison with the length of an array.
\<close>

definition parseInt :: "jsstring \<Rightarrow> int option" where
  "parseInt str =
     (let s1 = dropWhile isWhiteSpace str;
          negative = (s1 \<noteq> [] \<and> hd s1 = 0x2D);
          s2 = (if s1 \<noteq> [] \<and> (hd s1 = 0x2B \<or> hd s1 = 0x2D) then tl s1 else s1);
          hex = (startsWith s2 (js ''0x'') \<or> startsWith s2 (js ''0X''));
          radix = (if hex then 16 else 10);
          s3 = (if hex then drop 2 s2 else s2);
          z = takeWhile (isRadixDigit radix) s3
      in if z = [] then None
         else Some ((if negative then - 1 else 1) * digitsValue radix 0 z))"

text \<open>
  The decimal numeral of a natural number, as a user writes an index in \<open>!repo\<close>.
\<close>

definition digitChar :: "nat \<Rightarrow> jschar" where
  "digitChar k = of_nat (0x30 + k)"

fun decimal :: "nat \<Rightarrow> jsstring" where
  "decimal n = (if n < 10 then [digitChar n] else decimal (n div 10) @ [digitChar (n mod 10)])"

declare decimal.simps [simp del]

subsection \<open>The poller\<close>

definition autoStateKey :: "jsstring \<Rightarrow> jsstring" where
  "autoStateKey channel = js ''auto-'' @ channel"

text \<open>
  \<open>repo.split('/')[1] || defaultProjectName\<close>, then the first code unit in upper
  case and the rest in lower case.
\<close>

definition defaultProjectName :: "config \<Rightarrow> jsstring" where
  "defaultProjectName cfg =
     (case DISCORD_DEFAULT_PROJECT_NAME cfg of
        None \<Rightarrow> js ''Project''
      | Some n \<Rightarrow> if n = [] then js ''Project'' else n)"

definition capitalize :: "config \<Rightarrow> jsstring \<Rightarrow> jsstring" where
  "capitalize cfg repoName = toUpperCase cfg (take 1 repoName) @ toLowerCase cfg (drop 1 repoName)"

definition deriveProjectName :: "config \<Rightarrow> jsstring option \<Rightarrow> jsstring" where
  "deriveProjectName cfg repoOf =
     (let second = (case repoOf of
                      None \<Rightarrow> []
                    | Some r \<Rightarrow> (case split 0x2F r of _ # x # _ \<Rightarrow> x | _ \<Rightarrow> []));
          repoName = (if second \<noteq> [] then second else defaultProjectName cfg)
      in capitalize cfg repoName)"

definition processNewCommit ::
  "config \<Rightarrow> commitInfo \<Rightarrow> reply \<times> reply \<times> reply \<Rightarrow> botState \<Rightarrow> botState \<times> effect list" where
  "processNewCommit cfg commit replies st =
     (case replies of (r0, r1, r2) \<Rightarrow>
        (case generateSummary r0 of
           Inl e \<Rightarrow> (st, [GenerateSummaryCall [commit], Send (ErrorGeneratingPost e)])
         | Inr summary \<Rightarrow>
             let name = deriveProjectName cfg (Some (repo commit)) in
             (case generatePost (X_CHARACTER_LIMIT cfg) r1 r2 (Some name) of
                Inl e \<Rightarrow>
                  (st, [GenerateSummaryCall [commit], GeneratePostCall summary name,
                        Send (ErrorGeneratingPost e)])
              | Inr post \<Rightarrow>
                  (st\<lparr>userStates := (userStates st)
                        (autoStateKey (DISCORD_CHANNEL_ID cfg) \<mapsto>
                           \<lparr>commits = [commit], selectedCommits = [commit],
                            generatedSummary = Some summary, generatedPost = Some post,
                            projectName = Some name, pendingPost = Some True\<rparr>)\<rparr>,
                   [GenerateSummaryCall [commit], GeneratePostCall summary name,
                    Send (NewCommitDetected (repo commit) post)]))))"

text \<open>
  The body of the loop of \<open>checkForNewCommits\<close> for one fetched commit, paired with
  the provider's replies in case a draft is made for it.
\<close>

definition observeCommit ::
  "config \<Rightarrow> commitInfo \<times> reply \<times> reply \<times> reply \<Rightarrow> botState \<Rightarrow> botState \<times> effect list" where
  "observeCommit cfg observation st =
     (case observation of (commit, replies) \<Rightarrow>
        let lastSha = lastCheckedCommits st (repo commit) in
        if \<not> truthy lastSha \<or> lastSha \<noteq> Some (sha commit) then
          let st1 = st\<lparr>lastCheckedCommits := (lastCheckedCommits st)(repo commit \<mapsto> sha commit)\<rparr>
          in if truthy lastSha then processNewCommit cfg commit replies st1 else (st1, [])
        else (st, []))"

text \<open>
  One tick of the poller over the commits it fetched. With no repositories
  configured, no text channel or a failed fetch the tick does nothing, like a tick
  over no commits.
\<close>

fun checkForNewCommits ::
  "config \<Rightarrow> (commitInfo \<times> reply \<times> reply \<times> reply) list \<Rightarrow> botState \<Rightarrow> botState \<times> effect list" where
  "checkForNewCommits cfg [] st = (st, [])"
| "checkForNewCommits cfg (observation # rest) st =
     (case observeCommit cfg observation st of (st1, effects1) \<Rightarrow>
        (case checkForNewCommits cfg rest st1 of (st2, effects2) \<Rightarrow> (st2, effects1 @ effects2)))"

fun initCommits :: "commitInfo list \<Rightarrow> botState \<Rightarrow> botState" where
  "initCommits [] st = st"
| "initCommits (commit # rest) st =
     initCommits rest (st\<lparr>lastCheckedCommits := (lastCheckedCommits st)(repo commit \<mapsto> sha commit)\<rparr>)"

fun runTicks ::
  "config \<Rightarrow> (commitInfo \<times> reply \<times> reply \<times> reply) list list \<Rightarrow> botState \<Rightarrow> botState \<times> effect list" where
  "runTicks cfg [] st = (st, [])"
| "runTicks cfg (tick # rest) st =
     (case checkForNewCommits cfg tick st of (st1, effects1) \<Rightarrow>
        (case runTicks cfg rest st1 of (st2, effects2) \<Rightarrow> (st2, effects1 @ effects2)))"

subsection \<open>The command handlers\<close>

definition setUserState :: "botState \<Rightarrow> jsstring \<Rightarrow> userState \<Rightarrow> botState" where
  "setUserState st key state = st\<lparr>userStates := (userStates st)(key \<mapsto> state)\<rparr>"

definition deleteUserState :: "botState \<Rightarrow> jsstring \<Rightarrow> botState" where
  "deleteUserState st key = st\<lparr>userStates := (userStates st)(key := None)\<rparr>"

text \<open>\<open>!run\<close>: fetch the latest commits and store a fresh session for the user.\<close>

definition runCommand :: "config \<Rightarrow> jsstring \<Rightarrow> world \<Rightarrow> botState \<Rightarrow> botState \<times> effect list" where
  "runCommand cfg userId w st =
     (if \<not> truthy (GITHUB_REPOS cfg) then (st, [Reply ReposNotConfigured])
      else if fetched w = [] then (st, [Reply NoCommitsFound])
      else (setUserState st userId
              \<lparr>commits = fetched w, selectedCommits = [], generatedSummary = None,
               generatedPost = None, projectName = None, pendingPost = Some False\<rparr>,
            [Reply (LatestCommits (fetched w))]))"

text \<open>
  One token of \<open>!repo\<close>: \<open>parseInt(s.trim()) - 1\<close>, kept by the filter when it is a
  number \<open>n\<close> with \<open>0 \<le> n < state.commits.length\<close>.
\<close>

definition selectIndex :: "nat \<Rightarrow> jsstring \<Rightarrow> nat option" where
  "selectIndex count token =
     (case parseInt (trim token) of
        None \<Rightarrow> None
      | Some v \<Rightarrow> if 0 \<le> v - 1 \<and> v - 1 < int count then Some (nat (v - 1)) else None)"

definition selectedIndices :: "nat \<Rightarrow> jsstring \<Rightarrow> nat list" where
  "selectedIndices count args = List.map_filter (selectIndex count) (split 0x2C args)"

text \<open>
  \<open>!repo <numbers>\<close>. The session object is changed in place, so each assignment of
  the source is an update of the stored session, also when a later call throws.
\<close>

definition repoCommand ::
  "config \<Rightarrow> jsstring \<Rightarrow> jsstring \<Rightarrow> world \<Rightarrow> botState \<Rightarrow> botState \<times> effect list" where
  "repoCommand cfg userId command w st =
     (case userStates st userId of
        None \<Rightarrow> (st, [Reply PleaseRunFirst])
      | Some state \<Rightarrow>
          if commits state = [] then (st, [Reply PleaseRunFirst])
          else
            let args = trim (drop 6 command);
                indices = selectedIndices (length (commits state)) args
            in if indices = [] then (st, [Reply InvalidCommitNumbers])
               else
                 let selected = map (\<lambda>i. commits state ! i) indices;
                     state1 = state\<lparr>selectedCommits := selected, pendingPost := Some False\<rparr>
                 in case generateSummary (summaryReply w) of
                      Inl e \<Rightarrow>
                        (setUserState st userId state1,
                         [GenerateSummaryCall selected, Reply (ErrorReply e)])
                    | Inr summary \<Rightarrow>
                        let state2 = state1\<lparr>generatedSummary := Some summary\<rparr>;
                            name = deriveProjectName cfg
                                     (case selected of [] \<Rightarrow> None | c # _ \<Rightarrow> Some (repo c));
                            state3 = state2\<lparr>projectName := Some name\<rparr>
                        in case generatePost (X_CHARACTER_LIMIT cfg) (postReply1 w) (postReply2 w)
                                  (Some name) of
                             Inl e \<Rightarrow>
                               (setUserState st userId state3,
                                [GenerateSummaryCall selected, GeneratePostCall summary name,
                                 Reply (ErrorReply e)])
                           | Inr post \<Rightarrow>
                               (setUserState st userId
                                  (state3\<lparr>generatedPost := Some post, pendingPost := Some True\<rparr>),
                                [GenerateSummaryCall selected, GeneratePostCall summary name,
                                 Reply (SummaryAndPost summary post)]))"

definition regeneratePost ::
  "config \<Rightarrow> userState \<Rightarrow> jsstring \<Rightarrow> world \<Rightarrow> botState \<Rightarrow> botState \<times> effect list" where
  "regeneratePost cfg state stateKey w st =
     (if \<not> truthy (generatedSummary state) \<or> \<not> truthy (projectName state)
      then (st, [Reply CannotRegenerate])
      else
        let summary = (case generatedSummary state of Some x \<Rightarrow> x | None \<Rightarrow> []);
            name = (case projectName state of Some x \<Rightarrow> x | None \<Rightarrow> [])
        in case generatePost (X_CHARACTER_LIMIT cfg) (postReply1 w) (postReply2 w) (Some name) of
             Inl e \<Rightarrow> (st, [GeneratePostCall summary name, Reply (ErrorReply e)])
           | Inr newPost \<Rightarrow>
               (setUserState st stateKey
                  (state\<lparr>generatedPost := Some newPost, pendingPost := Some True\<rparr>),
                [GeneratePostCall summary name, Reply (RegeneratedPost newPost)]))"

text \<open>
  The guard \<open>!state || !state.field\<close> of the three handlers below, turned around: the
  field of the session when the session exists and the field is truthy.
\<close>

definition present :: "(userState \<Rightarrow> jsstring option) \<Rightarrow> userState option \<Rightarrow> jsstring option" where
  "present field state =
     (case state of None \<Rightarrow> None | Some x \<Rightarrow> if truthy (field x) then field x else None)"

text \<open>\<open>!redo\<close>: the user's session first, else the channel's auto session.\<close>

definition redoCommand ::
  "config \<Rightarrow> jsstring \<Rightarrow> jsstring \<Rightarrow> world \<Rightarrow> botState \<Rightarrow> botState \<times> effect list" where
  "redoCommand cfg userId channel w st =
     (case userStates st userId of
        Some state \<Rightarrow>
          if truthy (generatedSummary state) then regeneratePost cfg state userId w st
          else (let autoKey = autoStateKey channel in
                case userStates st autoKey of
                  None \<Rightarrow> (st, [Reply NoPostToRegenerate])
                | Some autoState \<Rightarrow>
                    if truthy (generatedSummary autoState)
                    then regeneratePost cfg autoState autoKey w st
                    else (st, [Reply NoPostToRegenerate]))
      | None \<Rightarrow>
          (let autoKey = autoStateKey channel in
           case userStates st autoKey of
             None \<Rightarrow> (st, [Reply NoPostToRegenerate])
           | Some autoState \<Rightarrow>
               if truthy (generatedSummary autoState)
               then regeneratePost cfg autoState autoKey w st
               else (st, [Reply NoPostToRegenerate])))"

text \<open>\<open>!no\<close>: discard the user's draft, else the channel's auto session.\<close>

definition noCommand :: "jsstring \<Rightarrow> jsstring \<Rightarrow> botState \<Rightarrow> botState \<times> effect list" where
  "noCommand userId channel st =
     (case present generatedPost (userStates st userId) of
        None \<Rightarrow>
          (let autoKey = autoStateKey channel in
           case userStates st autoKey of
             None \<Rightarrow> (st, [Reply NoPostToDiscard])
           | Some autoState \<Rightarrow> (deleteUserState st autoKey, [Reply PostDiscarded]))
      | Some post \<Rightarrow> (deleteUserState st userId, [Reply PostDiscarded]))"

text \<open>
  \<open>!post\<close>: publish the user's draft, else the channel's auto session's. The session
  is deleted after \<open>postToX\<close> has returned; when it throws, the handler only replies.
\<close>

definition publishAndDelete ::
  "config \<Rightarrow> jsstring \<Rightarrow> jsstring \<Rightarrow> world \<Rightarrow> botState \<Rightarrow> botState \<times> effect list" where
  "publishAndDelete cfg key post w st =
     (case postToX (X_CHARACTER_LIMIT cfg) (posting w) post of
        Some e \<Rightarrow> (st, [PostToXCall post, Reply (ErrorPosting e)])
      | None \<Rightarrow> (deleteUserState st key, [PostToXCall post, Reply PostedToX]))"

definition postCommand ::
  "config \<Rightarrow> jsstring \<Rightarrow> jsstring \<Rightarrow> world \<Rightarrow> botState \<Rightarrow> botState \<times> effect list" where
  "postCommand cfg userId channel w st =
     (case present generatedPost (userStates st userId) of
        None \<Rightarrow>
          (let autoKey = autoStateKey channel in
           case present generatedPost (userStates st autoKey) of
             None \<Rightarrow> (st, [Reply NoPostGenerated])
           | Some post \<Rightarrow> publishAndDelete cfg autoKey post w st)
      | Some post \<Rightarrow> publishAndDelete cfg userId post w st)"

text \<open>The \<open>messageCreate\<close> listener.\<close>

definition messageCreate ::
  "config \<Rightarrow> discordMessage \<Rightarrow> world \<Rightarrow> botState \<Rightarrow> botState \<times> effect list" where
  "messageCreate cfg msg w st =
     (if authorBot msg \<or> channelId msg \<noteq> DISCORD_CHANNEL_ID cfg then (st, [])
      else
        let userId = authorId msg;
            command = trim (content msg)
        in if command = js ''!help'' then (st, [Reply HelpText])
           else if command = js ''!run'' then runCommand cfg userId w st
           else if startsWith command (js ''!repo '') then repoCommand cfg userId command w st
           else if command = js ''!redo'' then redoCommand cfg userId (channelId msg) w st
           else if command = js ''!no'' then noCommand userId (channelId msg) st
           else if command = js ''!post'' then postCommand cfg userId (channelId msg) w st
           else (st, []))"

subsection \<open>Runs of the bot\<close>

datatype event =
    Ready "commitInfo list"
  | Tick "(commitInfo \<times> reply \<times> reply \<times> reply) list"
  | MessageCreate discordMessage world

fun step :: "config \<Rightarrow> event \<Rightarrow> botState \<Rightarrow> botState \<times> effect list" where
  "step cfg (Ready fetchedCommits) st = (initCommits fetchedCommits st, [])"
| "step cfg (Tick observations) st = checkForNewCommits cfg observations st"
| "step cfg (MessageCreate msg w) st = messageCreate cfg msg w st"

inductive reachable :: "config \<Rightarrow> botState \<Rightarrow> bool" for cfg :: config where
  reachable_init: "reachable cfg initialState"
| reachable_step: "reachable cfg st \<Longrightarrow> reachable cfg (fst (step cfg ev st))"

text \<open>The invariant of the session store: a pending post has a generated post.\<close>

definition draftInvariant :: "botState \<Rightarrow> bool" where
  "draftInvariant st \<longleftrightarrow>
     (\<forall>key state. userStates st key = Some state \<longrightarrow> pendingPost state = Some True \<longrightarrow>
        generatedPost state \<noteq> None)"

text \<open>The case mappings on ASCII letters, for concrete runs.\<close>

definition asciiUpper :: "jsstring \<Rightarrow> jsstring" where
  "asciiUpper str = map (\<lambda>c. if 0x61 \<le> c \<and> c \<le> 0x7A then c - 0x20 else c) str"

definition asciiLower :: "jsstring \<Rightarrow> jsstring" where
  "asciiLower str = map (\<lambda>c. if 0x41 \<le> c \<and> c \<le> 0x5A then c + 0x20 else c) str"

text \<open>
  For comparison with \<open>repoCommand\<close>, in the words of the specification: the commits
  that the in-range entries of a selection name (1-indexed), in the order of the
  entries; an entry that is no number or is out of range names none.
\<close>

definition validSelection :: "commitInfo list \<Rightarrow> jsstring list \<Rightarrow> commitInfo list" where
  "validSelection listed entries =
     concat (map (\<lambda>entry. case parseInt (trim entry) of
                               None \<Rightarrow> []
                             | Some v \<Rightarrow> if 1 \<le> v \<and> v \<le> int (length listed)
                                         then [listed ! nat (v - 1)] else [])
                 entries)"

subsection \<open>A concrete bot, for runs on concrete inputs\<close>

definition exampleConfig :: config where
  "exampleConfig =
     \<lparr>DISCORD_CHANNEL_ID = js ''42'', DISCORD_DEFAULT_PROJECT_NAME = None,
      GITHUB_REPOS = Some (js ''nikita/grixo''), X_CHARACTER_LIMIT = 280,
      toUpperCase = asciiUpper, toLowerCase = asciiLower\<rparr>"

definition commitA :: commitInfo where
  "commitA = \<lparr>sha = js ''aaaaaaa'', message = js ''Add poller'', date = js ''11/3/2026'',
     url = js ''https://github.com/nikita/grixo/commit/aaaaaaa'', repo = js ''nikita/grixo'',
     files = None\<rparr>"

definition commitB :: commitInfo where
  "commitB = \<lparr>sha = js ''bbbbbbb'', message = js ''Fix retry'', date = js ''11/3/2026'',
     url = js ''https://github.com/nikita/grixo/commit/bbbbbbb'', repo = js ''nikita/grixo'',
     files = None\<rparr>"

text \<open>A message of user 7 in the configured channel.\<close>

definition say :: "string \<Rightarrow> discordMessage" where
  "say command =
     \<lparr>authorId = js ''7'', authorBot = False, channelId = js ''42'', content = js command\<rparr>"

definition providerUp :: world where
  "providerUp =
     \<lparr>fetched = [commitA, commitB], summaryReply = Text (js ''The poller was added.''),
      postReply1 = Text (js ''We shipped a poller.''), postReply2 = Text (js ''Poller shipped.''),
      posting = Tweeted\<rparr>"

definition providerDown :: world where
  "providerDown =
     \<lparr>fetched = [commitA, commitB], summaryReply = Thrown None,
      postReply1 = Thrown None, postReply2 = Thrown None, posting = Tweeted\<rparr>"

definition composerDown :: world where
  "composerDown =
     \<lparr>fetched = [commitA, commitB], summaryReply = Text (js ''A retry was fixed.''),
      postReply1 = Thrown (Some (js ''429 Too Many Requests'')), postReply2 = Thrown None,
      posting = Tweeted\<rparr>"

definition upReplies :: "reply \<times> reply \<times> reply" where
  "upReplies = (Text (js ''The poller was added.''), Text (js ''We shipped a poller.''),
                Text (js ''Poller shipped.''))"

definition downReplies :: "reply \<times> reply \<times> reply" where
  "downReplies = (Thrown None, Thrown None, Thrown None)"

text \<open>After \<open>!run\<close>; after \<open>!run\<close> and \<open>!repo 1\<close>; and after a further \<open>!repo 2\<close> during
  which the provider is down.\<close>

definition listedState :: botState where
  "listedState = fst (messageCreate exampleConfig (say ''!run'') providerUp initialState)"

definition draftedState :: botState where
  "draftedState = fst (messageCreate exampleConfig (say ''!repo 1'') providerUp listedState)"

definition staleState :: botState where
  "staleState = fst (messageCreate exampleConfig (say ''!repo 2'') providerDown draftedState)"

text \<open>After the start-up fetch has seen commit A.\<close>

definition seededState :: botState where
  "seededState = initCommits [commitA] initialState"

section \<open>Properties of the post composer\<close>

subsection \<open>Trimming, splitting and accumulating\<close>

lemma length_trim_le: "length (trim s) \<le> length s"
proof -
  have "length (trim s) \<le> length (dropWhile isWhiteSpace s)"
    unfolding trim_def using length_dropWhile_le [of isWhiteSpace "rev (dropWhile isWhiteSpace s)"]
    by simp
  also have "\<dots> \<le> length s" by (rule length_dropWhile_le)
  finally show ?thesis .
qed

lemma rev_dropWhile_rev_prefix:
  "d = rev (dropWhile P (rev d)) @ rev (takeWhile P (rev d))"
proof -
  have "rev (dropWhile P (rev d)) @ rev (takeWhile P (rev d)) =
        rev (takeWhile P (rev d) @ dropWhile P (rev d))"
    by (simp only: rev_append)
  also have "\<dots> = rev (rev d)" by (simp only: takeWhile_dropWhile_id)
  also have "\<dots> = d" by simp
  finally show ?thesis by (rule sym)
qed

lemma trim_decomp:
  "s = takeWhile isWhiteSpace s @ trim s @ rev (takeWhile isWhiteSpace (rev (dropWhile isWhiteSpace s)))"
proof -
  have "dropWhile isWhiteSpace s =
        trim s @ rev (takeWhile isWhiteSpace (rev (dropWhile isWhiteSpace s)))"
    unfolding trim_def by (rule rev_dropWhile_rev_prefix)
  then have "takeWhile isWhiteSpace s @ dropWhile isWhiteSpace s =
     takeWhile isWhiteSpace s @ trim s @ rev (takeWhile isWhiteSpace (rev (dropWhile isWhiteSpace s)))"
    by simp
  then show ?thesis by simp
qed

lemma trim_last_nonspace:
  assumes "s \<noteq> []" and "\<not> isWhiteSpace (last s)"
  shows "trim s = dropWhile isWhiteSpace s"
proof -
  let ?d = "dropWhile isWhiteSpace s"
  have "?d \<noteq> []" using assms
    by (metis dropWhile_eq_Nil_conv last_in_set)
  moreover have "last ?d = last s" using assms
    by (metis (no_types) calculation last_appendR takeWhile_dropWhile_id)
  ultimately have "\<not> isWhiteSpace (hd (rev ?d))" using assms by (simp add: hd_rev)
  moreover have "rev ?d \<noteq> []" using \<open>?d \<noteq> []\<close> by simp
  ultimately have "dropWhile isWhiteSpace (rev ?d) = rev ?d"
    by (cases "rev ?d") auto
  then show ?thesis by (simp add: trim_def)
qed

lemma trim_nonempty:
  assumes "c \<in> set s" and "\<not> isWhiteSpace c"
  shows "trim s \<noteq> []"
proof
  assume "trim s = []"
  then have "s = takeWhile isWhiteSpace s @ rev (takeWhile isWhiteSpace (rev (dropWhile isWhiteSpace s)))"
    using trim_decomp [of s] by simp
  then have "set s = set (takeWhile isWhiteSpace s) \<union> set (takeWhile isWhiteSpace (rev (dropWhile isWhiteSpace s)))"
    by (metis set_append set_rev)
  then have "isWhiteSpace c" using assms(1) by (auto dest: set_takeWhileD)
  then show False using assms(2) by simp
qed

lemma hd_trim_nonspace:
  assumes "trim s \<noteq> []"
  shows "\<not> isWhiteSpace (hd (trim s))"
proof -
  let ?d = "dropWhile isWhiteSpace s"
  have d: "?d = trim s @ rev (takeWhile isWhiteSpace (rev ?d))"
    unfolding trim_def by (rule rev_dropWhile_rev_prefix)
  have "?d \<noteq> []"
  proof
    assume "?d = []"
    then have "trim s = rev (dropWhile isWhiteSpace (rev []))" by (simp only: trim_def)
    then show False using assms by simp
  qed
  then have "\<not> isWhiteSpace (hd ?d)" by (rule hd_dropWhile)
  moreover have "hd ?d = hd (trim s)" using d assms by (metis hd_append2)
  ultimately show ?thesis by simp
qed

lemma terminator_not_space: "isTerminator c \<Longrightarrow> \<not> isWhiteSpace c"
  by (auto simp: isTerminator_def isWhiteSpace_def)

lemma accumulateSentences_bound:
  "int (length t) \<le> m \<Longrightarrow> int (length (accumulateSentences m t ss)) \<le> m"
  by (induction ss arbitrary: t) (auto simp: Let_def)

lemma accumulateWords_bound:
  "int (length t) \<le> m \<Longrightarrow> int (length (accumulateWords m t ws)) \<le> m"
  by (induction ws arbitrary: t) (auto simp: Let_def)

lemma accumulateSentences_take:
  "\<exists>k\<le>length ss. accumulateSentences m t ss = t @ concat (take k ss)"
proof (induction ss arbitrary: t)
  case Nil
  then show ?case by simp
next
  case (Cons x xs)
  show ?case
  proof (cases "int (length (t @ x)) \<le> m")
    case True
    from Cons.IH [of "t @ x"] obtain k where
      k: "k \<le> length xs" "accumulateSentences m (t @ x) xs = (t @ x) @ concat (take k xs)"
      by blast
    have "accumulateSentences m t (x # xs) = t @ concat (take (Suc k) (x # xs))"
      using True k by (simp add: Let_def)
    moreover have "Suc k \<le> length (x # xs)" using k by simp
    ultimately show ?thesis by blast
  next
    case False
    then have "accumulateSentences m t (x # xs) = t @ concat (take 0 (x # xs))"
      by (simp add: Let_def)
    then show ?thesis by blast
  qed
qed

lemma accumulateSentences_first:
  assumes "int (length (t @ x)) \<le> m"
  shows "\<exists>k. 0 < k \<and> k \<le> length (x # xs) \<and>
             accumulateSentences m t (x # xs) = t @ concat (take k (x # xs))"
proof -
  from accumulateSentences_take [of xs m "t @ x"] obtain k where
    k: "k \<le> length xs" "accumulateSentences m (t @ x) xs = (t @ x) @ concat (take k xs)"
    by blast
  have "accumulateSentences m t (x # xs) = t @ concat (take (Suc k) (x # xs))"
    using assms k by (simp add: Let_def)
  moreover have "Suc k \<le> length (x # xs)" using k by simp
  ultimately show ?thesis by blast
qed

lemma accumulateSentences_Nil_iff:
  "accumulateSentences m [] ss \<noteq> [] \<Longrightarrow> ss \<noteq> [] \<and> int (length (hd ss)) \<le> m"
  by (cases ss) (auto simp: Let_def split: if_splits)

lemma accumulateWords_prefix: "\<exists>x. accumulateWords m t ws = t @ x"
proof (induction ws arbitrary: t)
  case Nil
  then show ?case by simp
next
  case (Cons w ws)
  show ?case
  proof (cases "int (length (t @ (if t \<noteq> [] then [0x20] else []) @ w)) \<le> m")
    case True
    from Cons.IH [of "t @ (if t \<noteq> [] then [0x20] else []) @ w"] obtain x where
      "accumulateWords m (t @ (if t \<noteq> [] then [0x20] else []) @ w) ws =
         (t @ (if t \<noteq> [] then [0x20] else []) @ w) @ x" by blast
    then have "accumulateWords m t (w # ws) = t @ ((if t \<noteq> [] then [0x20] else []) @ w @ x)"
      using True by (simp add: Let_def)
    then show ?thesis by blast
  next
    case False
    then have "accumulateWords m t (w # ws) = t @ []" by (simp add: Let_def)
    then show ?thesis by blast
  qed
qed

text \<open>Once \<open>truncated\<close> is not empty, the loop over the words keeps a prefix of the
  text that ends before a space or at the end.\<close>

lemma accumulateWords_boundary:
  assumes "t \<noteq> []"
  shows "\<exists>suf. t @ concat (map (\<lambda>w. 0x20 # w) ws) = accumulateWords m t ws @ suf \<and>
               (suf = [] \<or> hd suf = 0x20)"
  using assms
proof (induction ws arbitrary: t)
  case Nil
  then show ?case by simp
next
  case (Cons w ws)
  show ?case
  proof (cases "int (length (t @ [0x20] @ w)) \<le> m")
    case True
    have ne: "t @ [0x20] @ w \<noteq> []" by simp
    from Cons.IH [OF ne] obtain suf where
      suf: "(t @ [0x20] @ w) @ concat (map (\<lambda>w. 0x20 # w) ws) =
            accumulateWords m (t @ [0x20] @ w) ws @ suf" "suf = [] \<or> hd suf = 0x20"
      by blast
    have "accumulateWords m t (w # ws) = accumulateWords m (t @ [0x20] @ w) ws"
      using True Cons.prems by (simp add: Let_def)
    then show ?thesis using suf by auto
  next
    case False
    then have "accumulateWords m t (w # ws) = t" using Cons.prems by (simp add: Let_def)
    then show ?thesis by simp
  qed
qed

lemma split_Cons: "\<exists>w ws. split sep s = w # ws \<and> w = takeWhile (\<lambda>c. c \<noteq> sep) s"
  by (subst split.simps) simp

lemma split_concat:
  "split sep s = w # ws \<Longrightarrow> s = w @ concat (map (\<lambda>w. sep # w) ws)"
proof (induction sep s arbitrary: w ws rule: split.induct)
  case (1 sep s)
  show ?case
  proof (cases "dropWhile (\<lambda>c. c \<noteq> sep) s")
    case Nil
    then have "split sep s = [takeWhile (\<lambda>c. c \<noteq> sep) s]"
      by (subst split.simps) (simp only: list.case)
    moreover have "takeWhile (\<lambda>c. c \<noteq> sep) s = s"
      using Nil takeWhile_dropWhile_id [of "\<lambda>c. c \<noteq> sep" s] by (metis append_Nil2)
    ultimately show ?thesis using "1.prems" by simp
  next
    case (Cons x rest)
    then have x: "x = sep" using hd_dropWhile [of "\<lambda>c. c \<noteq> sep" s] by fastforce
    obtain w' ws' where sp: "split sep rest = w' # ws'" using split_Cons by blast
    have eq: "split sep s = takeWhile (\<lambda>c. c \<noteq> sep) s # w' # ws'"
      using Cons sp by (subst split.simps) simp
    have "rest = w' @ concat (map (\<lambda>w. sep # w) ws')"
      using "1.IH" [OF Cons sp] .
    moreover have "s = takeWhile (\<lambda>c. c \<noteq> sep) s @ sep # rest"
      using Cons x takeWhile_dropWhile_id [of "\<lambda>c. c \<noteq> sep" s] by metis
    ultimately show ?thesis using eq "1.prems" by auto
  qed
qed

lemma sentences_cases:
  obtains (none) "sentences s = []"
  | (some) lead body terms rest where
      "s = lead @ body @ terms @ rest"
      "\<forall>c\<in>set lead. isTerminator c"
      "terms \<noteq> []" "\<forall>c\<in>set terms. isTerminator c"
      "rest = [] \<or> \<not> isTerminator (hd rest)"
      "sentences s = (body @ terms) # sentences rest"
proof -
  define s1 where "s1 = dropWhile isTerminator s"
  define body where "body = takeWhile (\<lambda>c. \<not> isTerminator c) s1"
  define s2 where "s2 = dropWhile (\<lambda>c. \<not> isTerminator c) s1"
  define terms where "terms = takeWhile isTerminator s2"
  define s3 where "s3 = dropWhile isTerminator s2"
  have unfold: "sentences s =
      (if body = [] \<or> terms = [] then [] else (body @ terms) # sentences s3)"
    by (subst sentences.simps) (simp only: Let_def s1_def body_def s2_def terms_def s3_def)
  show thesis
  proof (cases "body = [] \<or> terms = []")
    case True
    then show thesis using unfold none by simp
  next
    case False
    have "s = takeWhile isTerminator s @ s1" by (simp add: s1_def)
    moreover have "s1 = body @ s2" by (simp add: body_def s2_def)
    moreover have "s2 = terms @ s3" by (simp add: terms_def s3_def)
    ultimately have "s = takeWhile isTerminator s @ body @ terms @ s3" by simp
    moreover have "\<forall>c\<in>set (takeWhile isTerminator s). isTerminator c"
      by (auto dest: set_takeWhileD)
    moreover have "\<forall>c\<in>set terms. isTerminator c"
      by (auto simp: terms_def dest: set_takeWhileD)
    moreover have "s3 = [] \<or> \<not> isTerminator (hd s3)"
      unfolding s3_def using hd_dropWhile [of isTerminator s2] by blast
    moreover have "sentences s = (body @ terms) # sentences s3" using unfold False by simp
    ultimately show thesis using some False by blast
  qed
qed

lemma sentences_decomp:
  "0 < k \<Longrightarrow> k \<le> length (sentences s) \<Longrightarrow>
   \<exists>pre suf. s = pre @ concat (take k (sentences s)) @ suf \<and>
             (\<forall>c\<in>set pre. isTerminator c) \<and> (suf = [] \<or> \<not> isTerminator (hd suf))"
proof (induction s arbitrary: k rule: length_induct)
  case (1 s)
  show ?case
  proof (cases s rule: sentences_cases)
    case none
    then show ?thesis using "1.prems" by simp
  next
    case (some lead body terms rest)
    obtain j where j: "k = Suc j" using "1.prems"(1) by (cases k) auto
    show ?thesis
    proof (cases j)
      case 0
      then have "concat (take k (sentences s)) = body @ terms" using j some(6) by simp
      then have "s = lead @ concat (take k (sentences s)) @ rest" using some(1) by simp
      with some(2,5) have "s = lead @ concat (take k (sentences s)) @ rest \<and>
             (\<forall>c\<in>set lead. isTerminator c) \<and> (rest = [] \<or> \<not> isTerminator (hd rest))"
        by simp
      then show ?thesis by (intro exI)
    next
      case (Suc i)
      have len: "length rest < length s" using some(1,3) by (cases terms) auto
      have jpos: "0 < j" and jle: "j \<le> length (sentences rest)"
        using Suc j "1.prems"(2) some(6) by auto
      define mid where "mid = concat (take j (sentences rest))"
      from "1.IH" [rule_format, OF len jpos jle] obtain pre suf where
        ps: "rest = pre @ mid @ suf"
            "\<forall>c\<in>set pre. isTerminator c" "suf = [] \<or> \<not> isTerminator (hd suf)"
        unfolding mid_def by blast
      have "pre = []"
      proof (rule ccontr)
        assume "pre \<noteq> []"
        then obtain p ps' where "pre = p # ps'" by (cases pre) auto
        then have "rest \<noteq> []" "hd rest = hd pre" using ps(1) by simp_all
        moreover have "isTerminator (hd pre)" using ps(2) \<open>pre \<noteq> []\<close> by simp
        ultimately show False using some(5) by simp
      qed
      then have "rest = mid @ suf" using ps(1) by simp
      moreover have "concat (take k (sentences s)) = body @ terms @ mid"
        using some(6) j by (simp add: mid_def)
      ultimately have "s = lead @ concat (take k (sentences s)) @ suf"
        using some(1) by simp
      with some(2) ps(3) have "s = lead @ concat (take k (sentences s)) @ suf \<and>
             (\<forall>c\<in>set lead. isTerminator c) \<and> (suf = [] \<or> \<not> isTerminator (hd suf))"
        by simp
      then show ?thesis by (intro exI)
    qed
  qed
qed

lemma sentences_ends:
  "x \<in> set (sentences s) \<Longrightarrow> x \<noteq> [] \<and> isTerminator (last x)"
proof (induction s rule: length_induct)
  case (1 s)
  show ?case
  proof (cases s rule: sentences_cases)
    case none
    then show ?thesis using "1.prems" by simp
  next
    case (some lead body terms rest)
    have len: "length rest < length s" using some(1,3) by (cases terms) auto
    show ?thesis
    proof (cases "x = body @ terms")
      case True
      then show ?thesis using some(3,4) by simp
    next
      case False
      then have "x \<in> set (sentences rest)" using "1.prems" some(6) by simp
      then show ?thesis by (rule "1.IH" [rule_format, OF len])
    qed
  qed
qed

lemma concat_take_last:
  assumes "\<forall>x\<in>set ss. x \<noteq> [] \<and> P (last x)" and "0 < k" and "k \<le> length ss"
  shows "concat (take k ss) \<noteq> [] \<and> P (last (concat (take k ss)))"
proof -
  obtain j where j: "k = Suc j" using assms(2) by (cases k) auto
  then have lt: "j < length ss" using assms(3) by simp
  then have "take k ss = take j ss @ [ss ! j]" using j by (simp add: take_Suc_conv_app_nth)
  then have c: "concat (take k ss) = concat (take j ss) @ ss ! j" by simp
  have "ss ! j \<in> set ss" using lt by simp
  then have "ss ! j \<noteq> []" "P (last (ss ! j))" using assms(1) by blast+
  then show ?thesis using c by simp
qed

lemma truncatePost_bound:
  assumes "0 \<le> m"
  shows "int (length (truncatePost m post)) \<le> m"
proof -
  have e: "int (length ([] :: jsstring)) \<le> m" using assms by simp
  have "int (length (trim (accumulateSentences m [] (sentences post)))) \<le> m"
    using accumulateSentences_bound [OF e, of "sentences post"]
      length_trim_le [of "accumulateSentences m [] (sentences post)"] by linarith
  moreover have "int (length (trim (accumulateWords m [] (split 0x20 post)))) \<le> m"
    using accumulateWords_bound [OF e, of "split 0x20 post"]
      length_trim_le [of "accumulateWords m [] (split 0x20 post)"] by linarith
  ultimately show ?thesis by (simp add: truncatePost_def Let_def)
qed

lemma finalCheck_bound:
  assumes "0 \<le> m"
  shows "int (length (finalCheck m post)) \<le> m"
  using truncatePost_bound [OF assms, of post] by (simp add: finalCheck_def)

text \<open>The sentence branch: what is kept is not empty, ends in a terminator, and is
  followed in the text by no further terminator.\<close>

lemma sentence_branch:
  assumes ne: "sentences post \<noteq> []"
    and fits: "int (length (hd (sentences post))) \<le> m"
  shows "truncatePost m post \<noteq> [] \<and> isTerminator (last (truncatePost m post)) \<and>
         (\<exists>pre suf. post = pre @ truncatePost m post @ suf \<and>
                     (suf = [] \<or> \<not> isTerminator (hd suf)))"
proof -
  obtain x xs where ss: "sentences post = x # xs" using ne by (cases "sentences post") auto
  define tr where "tr = accumulateSentences m [] (sentences post)"
  have "int (length ([] @ x)) \<le> m" using fits ss by simp
  from accumulateSentences_first [OF this, of xs] obtain k where
    k: "0 < k" "k \<le> length (sentences post)" "tr = concat (take k (sentences post))"
    unfolding tr_def ss by auto
  have ends: "\<forall>x\<in>set (sentences post). x \<noteq> [] \<and> isTerminator (last x)"
    using sentences_ends by blast
  have tr: "tr \<noteq> []" "isTerminator (last tr)"
    using concat_take_last [OF ends k(1,2)] k(3) by simp_all
  then have nsp: "\<not> isWhiteSpace (last tr)" using terminator_not_space by blast
  have r: "truncatePost m post = dropWhile isWhiteSpace tr"
    using tr(1) trim_last_nonspace [OF tr(1) nsp] by (simp add: truncatePost_def tr_def Let_def)
  have split: "tr = takeWhile isWhiteSpace tr @ dropWhile isWhiteSpace tr" by simp
  have dne: "dropWhile isWhiteSpace tr \<noteq> []"
    using tr(1) nsp by (metis dropWhile_eq_Nil_conv last_in_set)
  then have lst: "last (dropWhile isWhiteSpace tr) = last tr"
    by (metis last_appendR split)
  from sentences_decomp [OF k(1,2)] obtain pre suf where
    ps: "post = pre @ tr @ suf" "suf = [] \<or> \<not> isTerminator (hd suf)"
    unfolding k(3) by blast
  have "post = (pre @ takeWhile isWhiteSpace tr) @ dropWhile isWhiteSpace tr @ suf"
    using ps(1) split by (metis append.assoc)
  with ps(2) have "post = (pre @ takeWhile isWhiteSpace tr) @ truncatePost m post @ suf \<and>
     (suf = [] \<or> \<not> isTerminator (hd suf))" using r by simp
  then have "\<exists>pre suf. post = pre @ truncatePost m post @ suf \<and>
                     (suf = [] \<or> \<not> isTerminator (hd suf))" by (intro exI)
  then show ?thesis using r dne lst tr(2) by simp
qed

lemma first_word:
  assumes "post = trim text" and "post \<noteq> []"
  shows "\<exists>w ws. split 0x20 post = w # ws \<and> w \<noteq> [] \<and> \<not> isWhiteSpace (hd w) \<and>
                post = w @ concat (map (\<lambda>w. 0x20 # w) ws)"
proof -
  obtain w ws where sp: "split 0x20 post = w # ws" "w = takeWhile (\<lambda>c. c \<noteq> 0x20) post"
    using split_Cons by blast
  have "trim text \<noteq> []" using assms by simp
  from hd_trim_nonspace [OF this] have nsp: "\<not> isWhiteSpace (hd post)"
    by (simp add: assms(1))
  have "isWhiteSpace 0x20" by (simp add: isWhiteSpace_def)
  then have ne32: "hd post \<noteq> 0x20" using nsp by auto
  obtain c cs where post: "post = c # cs" using assms(2) by (cases post) auto
  have w: "w = c # takeWhile (\<lambda>c. c \<noteq> 0x20) cs" using sp(2) ne32 by (simp add: post)
  have "split 0x20 post = w # ws \<and> w \<noteq> [] \<and> \<not> isWhiteSpace (hd w) \<and>
                post = w @ concat (map (\<lambda>w. 0x20 # w) ws)"
  proof (intro conjI)
    show "split 0x20 post = w # ws" by (rule sp(1))
    show "w \<noteq> []" using w by simp
    show "\<not> isWhiteSpace (hd w)" using nsp w post by simp
    show "post = w @ concat (map (\<lambda>w. 0x20 # w) ws)" by (rule split_concat [OF sp(1)])
  qed
  then show ?thesis by (intro exI)
qed

lemma word_branch_nonempty:
  assumes "post = trim text" and "post \<noteq> []"
    and "int (length (hd (split 0x20 post))) \<le> m"
  shows "trim (accumulateWords m [] (split 0x20 post)) \<noteq> []"
proof -
  from first_word [OF assms(1,2)] obtain w ws where
    w: "split 0x20 post = w # ws" "w \<noteq> []" "\<not> isWhiteSpace (hd w)" by blast
  have "accumulateWords m [] (w # ws) = accumulateWords m w ws"
    using assms(3) w(1) by (simp add: Let_def)
  then obtain x where "accumulateWords m [] (split 0x20 post) = w @ x"
    using accumulateWords_prefix [of m w ws] w(1) by auto
  moreover have "hd w \<in> set (w @ x)" using w(2) by simp
  ultimately show ?thesis using trim_nonempty [OF _ w(3)] by metis
qed

lemma word_branch_boundary:
  assumes "post = trim text" and "int (length post) > m" and "0 \<le> m"
  shows "trim (accumulateWords m [] (split 0x20 post)) = [] \<or>
         (\<exists>suf. post = trim (accumulateWords m [] (split 0x20 post)) @ suf \<and>
                 suf \<noteq> [] \<and> isWhiteSpace (hd suf))"
proof -
  have pne: "post \<noteq> []" using assms(2,3) by auto
  from first_word [OF assms(1) pne] obtain w ws where
    w: "split 0x20 post = w # ws" "w \<noteq> []" "\<not> isWhiteSpace (hd w)"
       "post = w @ concat (map (\<lambda>w. 0x20 # w) ws)" by blast
  define t where "t = accumulateWords m [] (split 0x20 post)"
  show ?thesis
  proof (cases "int (length w) \<le> m")
    case False
    then have "t = []" using w(1) by (simp add: t_def Let_def)
    then show ?thesis by (simp add: t_def trim_def)
  next
    case True
    then have t: "t = accumulateWords m w ws" using w(1) by (simp add: t_def Let_def)
    from accumulateWords_boundary [OF w(2), of ws m] obtain suf0 where
      suf0: "post = t @ suf0" "suf0 = [] \<or> hd suf0 = 0x20" using w(4) t by auto
    obtain x where x: "t = w @ x" using accumulateWords_prefix [of m w ws] t by auto
    then have "t \<noteq> []" "hd t = hd w" using w(2) by simp_all
    then have "takeWhile isWhiteSpace t = []" using w(3) by (cases t) auto
    then have dec: "t = trim t @ rev (takeWhile isWhiteSpace (rev (dropWhile isWhiteSpace t)))"
      using trim_decomp [of t] by simp
    define tail where "tail = rev (takeWhile isWhiteSpace (rev (dropWhile isWhiteSpace t)))"
    have tail: "\<forall>c\<in>set tail. isWhiteSpace c"
      by (auto simp: tail_def dest: set_takeWhileD)
    have dec': "t = trim t @ tail" using dec by (simp add: tail_def)
    have p: "post = trim t @ (tail @ suf0)" using suf0(1) dec' by (metis append.assoc)
    have "int (length t) \<le> m" unfolding t using True by (rule accumulateWords_bound)
    then have "length (trim t) < length post" using length_trim_le [of t] assms(2) by linarith
    then have ne: "tail @ suf0 \<noteq> []" using p by (metis append_Nil2 less_irrefl)
    have sp: "isWhiteSpace 0x20" by (simp add: isWhiteSpace_def)
    have "isWhiteSpace (hd (tail @ suf0))"
    proof (cases tail)
      case Nil
      then show ?thesis using ne suf0(2) sp by auto
    next
      case (Cons c cs)
      then show ?thesis using tail by simp
    qed
    with p ne have "post = trim t @ (tail @ suf0) \<and> tail @ suf0 \<noteq> [] \<and>
        isWhiteSpace (hd (tail @ suf0))" by simp
    then have "\<exists>suf. post = trim t @ suf \<and> suf \<noteq> [] \<and> isWhiteSpace (hd suf)" by (intro exI)
    then show ?thesis by (simp add: t_def)
  qed
qed

subsection \<open>The length contract and the truncation fallback\<close>

text \<open>When the provider answers both prompts with a text, \<open>generatePost\<close> returns a post.\<close>

lemma generatePost_returns:
  "\<exists>postText. generatePost characterLimit (Text t1) (Text t2) project = Inr postText"
  by (simp add: generatePost_def generateWithPrompt_def stricterRetry_def Let_def)

text \<open>
  C1. Whatever the provider replies, a post that \<open>generatePost\<close> returns is at most
  \<open>characterLimit\<close> code units long, and it is the prefix followed by a content that
  together stay within the limit, provided the prefix itself fits within the limit
  (the empty prefix of a call without project name fits when the limit is not negative).
\<close>
theorem generatePost_within_limit:
  assumes "int (length (prefixOf project)) \<le> characterLimit"
    and "generatePost characterLimit reply1 reply2 project = Inr postText"
  shows "int (length postText) \<le> characterLimit \<and>
         (\<exists>generated. postText = prefixOf project @ generated \<and>
            int (length (prefixOf project)) + int (length generated) \<le> characterLimit)"
proof -
  define m where "m = characterLimit - int (length (prefixOf project))"
  have m: "0 \<le> m" using assms(1) by (simp add: m_def)
  from assms(2) obtain post where
    post: "postText = prefixOf project @ finalCheck m post"
    by (auto simp: generatePost_def Let_def m_def split: sum.splits)
  have "int (length (finalCheck m post)) \<le> m" using m by (rule finalCheck_bound)
  then have b: "int (length (prefixOf project)) + int (length (finalCheck m post))
      \<le> characterLimit" by (simp add: m_def)
  then have "int (length postText) \<le> characterLimit" using post by simp
  moreover have "\<exists>generated. postText = prefixOf project @ generated \<and>
            int (length (prefixOf project)) + int (length generated) \<le> characterLimit"
    using post b by blast
  ultimately show ?thesis by simp
qed

theorem generatePost_within_limit_witness:
  "int (length (prefixOf (Some (js ''Grixo'')))) \<le> 20 \<and>
   generatePost 20 (Text (js ''Hello there. This is too long for it.''))
      (Text (js ''Hi all. Bye'')) (Some (js ''Grixo''))
     = Inr (js ''Grixo Updates'' @ [0x0A, 0x0A] @ js ''Hi'') \<and>
   int (length (js ''Grixo Updates'' @ [0x0A, 0x0A] @ js ''Hi'')) \<le> 20"
proof -
  have h1: "int (length (prefixOf (Some (js ''Grixo'')))) \<le> 20" by code_simp
  have h2: "generatePost 20 (Text (js ''Hello there. This is too long for it.''))
      (Text (js ''Hi all. Bye'')) (Some (js ''Grixo''))
     = Inr (js ''Grixo Updates'' @ [0x0A, 0x0A] @ js ''Hi'')" by code_simp
  from generatePost_within_limit [OF h1 h2] show ?thesis using h1 h2 by blast
qed

text \<open>
  C5 (amended). For a budget that is not negative and a trimmed post that exceeds it,
  the truncation never exceeds the budget; when the first sentence of the text fits
  within the budget the result is not empty, ends in a terminator and stops at the
  end of a run of terminators of the text; otherwise the result is empty or stops in
  front of a white space of the text, so it never cuts a word.
\<close>
theorem truncation_boundaries:
  assumes "0 \<le> maxPostLength" and "post = trim text"
    and "int (length post) > maxPostLength"
  shows "int (length (truncatePost maxPostLength post)) \<le> maxPostLength \<and>
    (if sentences post \<noteq> [] \<and> int (length (hd (sentences post))) \<le> maxPostLength
     then truncatePost maxPostLength post \<noteq> [] \<and>
          isTerminator (last (truncatePost maxPostLength post)) \<and>
          (\<exists>pre suf. post = pre @ truncatePost maxPostLength post @ suf \<and>
                      (suf = [] \<or> \<not> isTerminator (hd suf)))
     else truncatePost maxPostLength post = [] \<or>
          (\<exists>suf. post = truncatePost maxPostLength post @ suf \<and>
                  suf \<noteq> [] \<and> isWhiteSpace (hd suf)))"
proof (cases "sentences post \<noteq> [] \<and> int (length (hd (sentences post))) \<le> maxPostLength")
  case True
  then have "truncatePost maxPostLength post \<noteq> [] \<and>
          isTerminator (last (truncatePost maxPostLength post)) \<and>
          (\<exists>pre suf. post = pre @ truncatePost maxPostLength post @ suf \<and>
                      (suf = [] \<or> \<not> isTerminator (hd suf)))"
    using sentence_branch [of post maxPostLength] by blast
  then show ?thesis
    unfolding if_P [OF True] using truncatePost_bound [OF assms(1), of post] by blast
next
  case False
  then have "accumulateSentences maxPostLength [] (sentences post) = []"
    using accumulateSentences_Nil_iff [of maxPostLength "sentences post"] by blast
  then have "truncatePost maxPostLength post =
      trim (accumulateWords maxPostLength [] (split 0x20 post))"
    by (simp add: truncatePost_def)
  then have "truncatePost maxPostLength post = [] \<or>
          (\<exists>suf. post = truncatePost maxPostLength post @ suf \<and>
                  suf \<noteq> [] \<and> isWhiteSpace (hd suf))"
    using word_branch_boundary [OF assms(2,3,1)] by simp
  then show ?thesis
    unfolding if_not_P [OF False] using truncatePost_bound [OF assms(1), of post] by blast
qed

theorem truncation_boundaries_witness:
  "truncatePost 8 (js ''Hello. World is big'') = js ''Hello.'' \<and>
   isTerminator (last (truncatePost 8 (js ''Hello. World is big''))) \<and>
   truncatePost 8 (js ''Hello my world is big'') = js ''Hello my'' \<and>
   (\<exists>suf. js ''Hello my world is big'' = truncatePost 8 (js ''Hello my world is big'') @ suf \<and>
          suf \<noteq> [] \<and> isWhiteSpace (hd suf))"
proof -
  have a1: "(0::int) \<le> 8" by simp
  have a2: "js ''Hello. World is big'' = trim (js '' Hello. World is big '')" by code_simp
  have a3: "int (length (js ''Hello. World is big'')) > 8" by code_simp
  have a4: "sentences (js ''Hello. World is big'') \<noteq> [] \<and>
            int (length (hd (sentences (js ''Hello. World is big'')))) \<le> 8" by code_simp
  have b2: "js ''Hello my world is big'' = trim (js ''Hello my world is big'')" by code_simp
  have b3: "int (length (js ''Hello my world is big'')) > 8" by code_simp
  have b4: "\<not> (sentences (js ''Hello my world is big'') \<noteq> [] \<and>
            int (length (hd (sentences (js ''Hello my world is big'')))) \<le> 8)" by code_simp
  have r1: "truncatePost 8 (js ''Hello. World is big'') = js ''Hello.''" by code_simp
  have r2: "truncatePost 8 (js ''Hello my world is big'') = js ''Hello my''" by code_simp
  have ne: "js ''Hello my'' \<noteq> []" by code_simp
  have "isTerminator (last (truncatePost 8 (js ''Hello. World is big'')))"
    using truncation_boundaries [OF a1 a2 a3] unfolding if_P [OF a4] by blast
  moreover have "truncatePost 8 (js ''Hello my world is big'') \<noteq> []"
    using r2 ne by simp
  then have "\<exists>suf. js ''Hello my world is big'' = truncatePost 8 (js ''Hello my world is big'') @ suf \<and>
          suf \<noteq> [] \<and> isWhiteSpace (hd suf)"
    using truncation_boundaries [OF a1 b2 b3] unfolding if_not_P [OF b4] by blast
  ultimately show ?thesis using r1 r2 by blast
qed

text \<open>
  C5 as stated fails: at budget 6 the sentence \<open>'' Hi.''\<close> of the text fits, but the
  first sentence does not, and the result \<open>''Aaaa''\<close> ends inside a sentence; and at
  the negative budget \<open>-1\<close> (a prefix longer than the character limit) the empty
  result is longer than the budget.
\<close>
theorem truncation_boundaries_counterexample:
  "trim (js ''Aaaa bbbbbbbbbbb. Hi.'') = js ''Aaaa bbbbbbbbbbb. Hi.'' \<and>
   int (length (js ''Aaaa bbbbbbbbbbb. Hi.'')) > 6 \<and>
   js '' Hi.'' \<in> set (sentences (js ''Aaaa bbbbbbbbbbb. Hi.'')) \<and>
   int (length (js '' Hi.'')) \<le> 6 \<and>
   truncatePost 6 (js ''Aaaa bbbbbbbbbbb. Hi.'') = js ''Aaaa'' \<and>
   \<not> isTerminator (last (js ''Aaaa'')) \<and>
   int (length (js ''Hi. Ok'')) > - 1 \<and>
   \<not> int (length (truncatePost (- 1) (js ''Hi. Ok''))) \<le> - 1"
  by code_simp

text \<open>
  C8 (amended). For a trimmed post that is not empty, if the budget is at least the
  length of the first word of the text, the truncated result is not empty.
\<close>
theorem truncation_nonempty:
  assumes "post = trim text" and "post \<noteq> []"
    and "int (length (hd (split 0x20 post))) \<le> maxPostLength"
  shows "truncatePost maxPostLength post \<noteq> []"
proof (cases "accumulateSentences maxPostLength [] (sentences post) = []")
  case True
  then show ?thesis using word_branch_nonempty [OF assms] by (simp add: truncatePost_def)
next
  case False
  define tr where "tr = accumulateSentences maxPostLength [] (sentences post)"
  from accumulateSentences_take [of "sentences post" maxPostLength "[]"] obtain k where
    k: "k \<le> length (sentences post)" "tr = concat (take k (sentences post))"
    unfolding tr_def by auto
  have "0 < k" using False k(2) by (cases k) (auto simp: tr_def)
  moreover have "\<forall>x\<in>set (sentences post). x \<noteq> [] \<and> isTerminator (last x)"
    using sentences_ends by blast
  ultimately have "tr \<noteq> []" "isTerminator (last tr)"
    using concat_take_last [of "sentences post" isTerminator k] k by simp_all
  then have "last tr \<in> set tr" "\<not> isWhiteSpace (last tr)"
    using terminator_not_space by auto
  then have "trim tr \<noteq> []" by (rule trim_nonempty)
  then show ?thesis using False by (simp add: truncatePost_def tr_def)
qed

theorem truncation_nonempty_witness:
  "js ''Hello my world is big'' = trim (js ''  Hello my world is big'') \<and>
   js ''Hello my world is big'' \<noteq> [] \<and>
   int (length (hd (split 0x20 (js ''Hello my world is big'')))) \<le> 8 \<and>
   truncatePost 8 (js ''Hello my world is big'') \<noteq> []"
proof -
  have a1: "js ''Hello my world is big'' = trim (js ''  Hello my world is big'')" by code_simp
  have a2: "js ''Hello my world is big'' \<noteq> []" by code_simp
  have a3: "int (length (hd (split 0x20 (js ''Hello my world is big'')))) \<le> 8" by code_simp
  from truncation_nonempty [OF a1 a2 a3] show ?thesis using a1 a2 a3 by blast
qed

text \<open>
  C8 as stated fails: the word \<open>''a''\<close> of \<open>''Hello a''\<close> fits the budget 1, the first
  word does not, and the result is empty.
\<close>
theorem truncation_nonempty_counterexample:
  "js ''Hello a'' \<noteq> [] \<and> trim (js ''Hello a'') = js ''Hello a'' \<and>
   int (length (js ''Hello a'')) > 1 \<and>
   js ''a'' \<in> set (split 0x20 (js ''Hello a'')) \<and> int (length (js ''a'')) \<le> 1 \<and>
   truncatePost 1 (js ''Hello a'') = []"
  by code_simp

section \<open>Properties of the session store and the poller\<close>

subsection \<open>The invariant of the sessions\<close>

lemma draftInvariant_initial: "draftInvariant initialState"
  by (simp add: draftInvariant_def initialState_def)

lemma draftInvariant_set:
  assumes "draftInvariant st" and "pendingPost state = Some True \<longrightarrow> generatedPost state \<noteq> None"
  shows "draftInvariant (setUserState st key state)"
  using assms by (auto simp: draftInvariant_def setUserState_def)

lemma draftInvariant_delete:
  "draftInvariant st \<Longrightarrow> draftInvariant (deleteUserState st key)"
  by (auto simp: draftInvariant_def deleteUserState_def)

lemma draftInvariant_watermark:
  "draftInvariant st \<Longrightarrow> draftInvariant (st\<lparr>lastCheckedCommits := m\<rparr>)"
  by (simp add: draftInvariant_def)

lemma draftInvariant_processNewCommit:
  assumes "draftInvariant st"
  shows "draftInvariant (fst (processNewCommit cfg commit replies st))"
proof -
  obtain r0 r1 r2 where r: "replies = (r0, r1, r2)" by (cases replies) auto
  show ?thesis
    using assms unfolding r processNewCommit_def
    by (auto simp: draftInvariant_def Let_def split: sum.splits)
qed

lemma draftInvariant_observeCommit:
  assumes "draftInvariant st"
  shows "draftInvariant (fst (observeCommit cfg observation st))"
proof -
  obtain commit replies where ob: "observation = (commit, replies)" by (cases observation) auto
  show ?thesis
    using assms draftInvariant_processNewCommit [OF draftInvariant_watermark [OF assms]]
    unfolding ob observeCommit_def by (simp add: Let_def draftInvariant_watermark)
qed

lemma checkForNewCommits_Cons:
  "checkForNewCommits cfg (observation # rest) st =
     (fst (checkForNewCommits cfg rest (fst (observeCommit cfg observation st))),
      snd (observeCommit cfg observation st) @
      snd (checkForNewCommits cfg rest (fst (observeCommit cfg observation st))))"
  by (simp split: prod.splits)

lemma draftInvariant_checkForNewCommits:
  "draftInvariant st \<Longrightarrow> draftInvariant (fst (checkForNewCommits cfg observations st))"
proof (induction observations arbitrary: st)
  case Nil
  then show ?case by simp
next
  case (Cons observation rest)
  have "draftInvariant (fst (observeCommit cfg observation st))"
    using Cons.prems by (rule draftInvariant_observeCommit)
  from Cons.IH [OF this] show ?case by (simp only: checkForNewCommits_Cons fst_conv)
qed

lemma draftInvariant_initCommits:
  "draftInvariant st \<Longrightarrow> draftInvariant (initCommits fetchedCommits st)"
  by (induction fetchedCommits arbitrary: st) (simp_all add: draftInvariant_watermark)

lemma draftInvariant_runCommand:
  "draftInvariant st \<Longrightarrow> draftInvariant (fst (runCommand cfg userId w st))"
  by (simp add: runCommand_def draftInvariant_set)

lemma draftInvariant_repoCommand:
  assumes "draftInvariant st"
  shows "draftInvariant (fst (repoCommand cfg userId command w st))"
  using assms unfolding repoCommand_def
  by (auto simp: Let_def intro!: draftInvariant_set split: option.splits sum.splits)

lemma draftInvariant_regeneratePost:
  assumes "draftInvariant st"
  shows "draftInvariant (fst (regeneratePost cfg state stateKey w st))"
  using assms unfolding regeneratePost_def
  by (auto simp: Let_def intro!: draftInvariant_set split: option.splits sum.splits)

lemma draftInvariant_redoCommand:
  assumes "draftInvariant st"
  shows "draftInvariant (fst (redoCommand cfg userId channel w st))"
  using assms draftInvariant_regeneratePost [OF assms] unfolding redoCommand_def
  by (auto simp: Let_def split: option.splits)

lemma draftInvariant_noCommand:
  assumes "draftInvariant st"
  shows "draftInvariant (fst (noCommand userId channel st))"
  using assms draftInvariant_delete [OF assms] unfolding noCommand_def
  by (auto simp: Let_def split: option.splits)

lemma draftInvariant_postCommand:
  assumes "draftInvariant st"
  shows "draftInvariant (fst (postCommand cfg userId channel w st))"
  using assms draftInvariant_delete [OF assms] unfolding postCommand_def publishAndDelete_def
  by (auto simp: Let_def split: option.splits)

lemma draftInvariant_messageCreate:
  assumes "draftInvariant st"
  shows "draftInvariant (fst (messageCreate cfg msg w st))"
  using assms draftInvariant_runCommand [OF assms] draftInvariant_repoCommand [OF assms]
    draftInvariant_redoCommand [OF assms] draftInvariant_noCommand [OF assms]
    draftInvariant_postCommand [OF assms]
  unfolding messageCreate_def by (simp add: Let_def)

lemma draftInvariant_step:
  assumes "draftInvariant st"
  shows "draftInvariant (fst (step cfg ev st))"
  using draftInvariant_initCommits [OF assms] draftInvariant_checkForNewCommits [OF assms]
    draftInvariant_messageCreate [OF assms]
  by (cases ev) simp_all

lemma reachable_draftInvariant: "reachable cfg st \<Longrightarrow> draftInvariant st"
  by (induction rule: reachable.induct) (simp_all add: draftInvariant_initial draftInvariant_step)

text \<open>
  C7. In every state that the bot reaches from its start by start-up fetches, poller
  ticks and messages (list, select, regenerate, discard, publish, auto-draft), a
  session whose \<open>pendingPost\<close> is true has a generated post. Every handler runs to
  its end before the next event.
\<close>

theorem pending_implies_generated:
  assumes "reachable cfg st"
    and "userStates st key = Some state"
    and "pendingPost state = Some True"
  shows "generatedPost state \<noteq> None"
  using reachable_draftInvariant [OF assms(1)] assms(2,3) by (simp add: draftInvariant_def)

theorem pending_implies_generated_witness:
  "reachable exampleConfig draftedState \<and>
   map_option pendingPost (userStates draftedState (js ''7'')) = Some (Some True) \<and>
   generatedPost (the (userStates draftedState (js ''7''))) \<noteq> None"
proof -
  have r: "reachable exampleConfig draftedState"
    using reachable_step [OF reachable_step [OF reachable_init [of exampleConfig],
        of "MessageCreate (say ''!run'') providerUp"],
        of "MessageCreate (say ''!repo 1'') providerUp"]
    by (simp add: draftedState_def listedState_def)
  have s: "userStates draftedState (js ''7'') = Some (the (userStates draftedState (js ''7'')))"
    by code_simp
  have p: "pendingPost (the (userStates draftedState (js ''7''))) = Some True" by code_simp
  from pending_implies_generated [OF r s p] r s p show ?thesis by (metis option.simps(9))
qed

subsection \<open>The poller and its watermarks\<close>

lemma processNewCommit_watermarks:
  "lastCheckedCommits (fst (processNewCommit cfg commit replies st)) = lastCheckedCommits st"
proof -
  obtain r0 r1 r2 where r: "replies = (r0, r1, r2)" by (cases replies) auto
  show ?thesis unfolding r processNewCommit_def by (simp add: Let_def split: sum.splits)
qed

lemma processNewCommit_attempts:
  "GenerateSummaryCall cs \<in> set (snd (processNewCommit cfg commit replies st)) \<Longrightarrow> cs = [commit]"
proof -
  obtain r0 r1 r2 where r: "replies = (r0, r1, r2)" by (cases replies) auto
  show "GenerateSummaryCall cs \<in> set (snd (processNewCommit cfg commit replies st)) \<Longrightarrow> cs = [commit]"
    unfolding r processNewCommit_def by (auto simp: Let_def split: sum.splits)
qed

lemma observeCommit_seed:
  assumes "lastCheckedCommits st (repo commit) = None"
  shows "observeCommit cfg (commit, replies) st =
           (st\<lparr>lastCheckedCommits := (lastCheckedCommits st)(repo commit \<mapsto> sha commit)\<rparr>, [])"
  using assms by (simp add: observeCommit_def truthy_def)

lemma observeCommit_trigger:
  assumes "lastCheckedCommits st (repo commit) = Some old" and "old \<noteq> []" and "old \<noteq> sha commit"
  shows "observeCommit cfg (commit, replies) st =
           processNewCommit cfg commit replies
             (st\<lparr>lastCheckedCommits := (lastCheckedCommits st)(repo commit \<mapsto> sha commit)\<rparr>)"
  using assms by (simp add: observeCommit_def truthy_def)

lemma observeCommit_advances:
  "lastCheckedCommits (fst (observeCommit cfg (commit, replies) st)) (repo commit) = Some (sha commit)"
  by (auto simp: observeCommit_def Let_def processNewCommit_watermarks)

lemma observeCommit_other:
  assumes "repo commit \<noteq> r"
  shows "lastCheckedCommits (fst (observeCommit cfg (commit, replies) st)) r = lastCheckedCommits st r"
  using assms by (auto simp: observeCommit_def Let_def processNewCommit_watermarks)

lemma observeCommit_attempts:
  "GenerateSummaryCall cs \<in> set (snd (observeCommit cfg (commit, replies) st)) \<Longrightarrow>
     cs = [commit] \<and> lastCheckedCommits st (repo commit) \<noteq> Some (sha commit)"
  by (auto simp: observeCommit_def Let_def dest: processNewCommit_attempts split: if_splits)

text \<open>While the watermark of a repository equals the hash observed for it, observing
  changes nothing for that repository and makes no draft for it.\<close>

lemma observeCommit_no_retry:
  assumes "lastCheckedCommits st r = Some h"
    and "repo (fst observation) = r \<longrightarrow> sha (fst observation) = h"
  shows "lastCheckedCommits (fst (observeCommit cfg observation st)) r = Some h \<and>
         (\<forall>cs. GenerateSummaryCall cs \<in> set (snd (observeCommit cfg observation st)) \<longrightarrow>
               (\<forall>c\<in>set cs. repo c \<noteq> r))"
proof -
  obtain commit replies where ob: "observation = (commit, replies)" by (cases observation) auto
  show ?thesis
  proof (cases "repo commit = r")
    case True
    then have "lastCheckedCommits st (repo commit) = Some (sha commit)"
      using assms ob by simp
    moreover have "lastCheckedCommits (fst (observeCommit cfg (commit, replies) st)) (repo commit)
        = Some (sha commit)" by (rule observeCommit_advances)
    ultimately show ?thesis
      using True assms ob observeCommit_attempts [of _ cfg commit replies st] by auto
  next
    case False
    have "\<forall>cs. GenerateSummaryCall cs \<in> set (snd (observeCommit cfg (commit, replies) st)) \<longrightarrow>
               (\<forall>c\<in>set cs. repo c \<noteq> r)"
    proof (intro allI impI)
      fix cs
      assume "GenerateSummaryCall cs \<in> set (snd (observeCommit cfg (commit, replies) st))"
      then have "cs = [commit]" using observeCommit_attempts by blast
      then show "\<forall>c\<in>set cs. repo c \<noteq> r" using False by simp
    qed
    then show ?thesis
      using assms(1) ob observeCommit_other [OF False, of cfg replies st] by simp
  qed
qed

lemma checkForNewCommits_no_retry:
  assumes "lastCheckedCommits st r = Some h"
    and "\<forall>observation\<in>set tick. repo (fst observation) = r \<longrightarrow> sha (fst observation) = h"
  shows "lastCheckedCommits (fst (checkForNewCommits cfg tick st)) r = Some h \<and>
         (\<forall>cs. GenerateSummaryCall cs \<in> set (snd (checkForNewCommits cfg tick st)) \<longrightarrow>
               (\<forall>c\<in>set cs. repo c \<noteq> r))"
  using assms
proof (induction tick arbitrary: st)
  case Nil
  then show ?case by simp
next
  case (Cons observation rest)
  have one: "lastCheckedCommits (fst (observeCommit cfg observation st)) r = Some h \<and>
         (\<forall>cs. GenerateSummaryCall cs \<in> set (snd (observeCommit cfg observation st)) \<longrightarrow>
               (\<forall>c\<in>set cs. repo c \<noteq> r))"
    using Cons.prems by (intro observeCommit_no_retry) simp_all
  have "\<forall>observation\<in>set rest. repo (fst observation) = r \<longrightarrow> sha (fst observation) = h"
    using Cons.prems(2) by simp
  from Cons.IH [OF conjunct1 [OF one] this] one show ?case
    by (auto simp only: checkForNewCommits_Cons fst_conv snd_conv set_append Un_iff)
qed

lemma runTicks_Cons:
  "runTicks cfg (tick # rest) st =
     (fst (runTicks cfg rest (fst (checkForNewCommits cfg tick st))),
      snd (checkForNewCommits cfg tick st) @
      snd (runTicks cfg rest (fst (checkForNewCommits cfg tick st))))"
  by (simp split: prod.splits)

lemma runTicks_no_retry:
  assumes "lastCheckedCommits st r = Some h"
    and "\<forall>tick\<in>set ticks. \<forall>observation\<in>set tick.
           repo (fst observation) = r \<longrightarrow> sha (fst observation) = h"
  shows "lastCheckedCommits (fst (runTicks cfg ticks st)) r = Some h \<and>
         (\<forall>cs. GenerateSummaryCall cs \<in> set (snd (runTicks cfg ticks st)) \<longrightarrow>
               (\<forall>c\<in>set cs. repo c \<noteq> r))"
  using assms
proof (induction ticks arbitrary: st)
  case Nil
  then show ?case by simp
next
  case (Cons tick rest)
  have one: "lastCheckedCommits (fst (checkForNewCommits cfg tick st)) r = Some h \<and>
         (\<forall>cs. GenerateSummaryCall cs \<in> set (snd (checkForNewCommits cfg tick st)) \<longrightarrow>
               (\<forall>c\<in>set cs. repo c \<noteq> r))"
    using Cons.prems by (intro checkForNewCommits_no_retry) simp_all
  have "\<forall>tick\<in>set rest. \<forall>observation\<in>set tick.
           repo (fst observation) = r \<longrightarrow> sha (fst observation) = h"
    using Cons.prems(2) by simp
  from Cons.IH [OF conjunct1 [OF one] this] one show ?case
    by (auto simp only: runTicks_Cons fst_conv snd_conv set_append Un_iff)
qed

lemma checkForNewCommits_other:
  assumes "\<forall>observation\<in>set tick. repo (fst observation) \<noteq> r"
  shows "lastCheckedCommits (fst (checkForNewCommits cfg tick st)) r = lastCheckedCommits st r"
  using assms
proof (induction tick arbitrary: st)
  case Nil
  then show ?case by simp
next
  case (Cons observation rest)
  obtain commit replies where ob: "observation = (commit, replies)" by (cases observation) auto
  have "repo commit \<noteq> r" using Cons.prems ob by simp
  then have "lastCheckedCommits (fst (observeCommit cfg observation st)) r = lastCheckedCommits st r"
    unfolding ob by (rule observeCommit_other)
  moreover have "\<forall>observation\<in>set rest. repo (fst observation) \<noteq> r" using Cons.prems by simp
  ultimately show ?case using Cons.IH by (simp only: checkForNewCommits_Cons fst_conv)
qed

lemma checkForNewCommits_seed:
  assumes "\<forall>observation\<in>set tick. lastCheckedCommits st (repo (fst observation)) = None"
    and "distinct (map (\<lambda>observation. repo (fst observation)) tick)"
  shows "snd (checkForNewCommits cfg tick st) = [] \<and>
         userStates (fst (checkForNewCommits cfg tick st)) = userStates st \<and>
         (\<forall>observation\<in>set tick.
            lastCheckedCommits (fst (checkForNewCommits cfg tick st)) (repo (fst observation))
              = Some (sha (fst observation)))"
  using assms
proof (induction tick arbitrary: st)
  case Nil
  then show ?case by simp
next
  case (Cons observation rest)
  obtain commit replies where ob: "observation = (commit, replies)" by (cases observation) auto
  define st1 where
    "st1 = st\<lparr>lastCheckedCommits := (lastCheckedCommits st)(repo commit \<mapsto> sha commit)\<rparr>"
  have absent: "lastCheckedCommits st (repo commit) = None" using Cons.prems(1) ob by simp
  have one: "observeCommit cfg observation st = (st1, [])"
    unfolding ob st1_def using absent by (rule observeCommit_seed)
  have others: "\<forall>observation\<in>set rest. repo (fst observation) \<noteq> repo commit"
    using Cons.prems(2) ob by force
  then have "\<forall>observation\<in>set rest. lastCheckedCommits st1 (repo (fst observation)) = None"
    using Cons.prems(1) by (simp add: st1_def)
  moreover have "distinct (map (\<lambda>observation. repo (fst observation)) rest)"
    using Cons.prems(2) by simp
  ultimately have IH: "snd (checkForNewCommits cfg rest st1) = [] \<and>
         userStates (fst (checkForNewCommits cfg rest st1)) = userStates st1 \<and>
         (\<forall>observation\<in>set rest.
            lastCheckedCommits (fst (checkForNewCommits cfg rest st1)) (repo (fst observation))
              = Some (sha (fst observation)))"
    by (rule Cons.IH)
  have "lastCheckedCommits (fst (checkForNewCommits cfg rest st1)) (repo commit)
          = lastCheckedCommits st1 (repo commit)"
    using others by (rule checkForNewCommits_other)
  then have this_one: "lastCheckedCommits (fst (checkForNewCommits cfg rest st1)) (repo commit)
          = Some (sha commit)" by (simp add: st1_def)
  have eq: "checkForNewCommits cfg (observation # rest) st =
      (fst (checkForNewCommits cfg rest st1), snd (checkForNewCommits cfg rest st1))"
    by (simp only: checkForNewCommits_Cons one fst_conv snd_conv append_Nil)
  have "userStates st1 = userStates st" by (simp add: st1_def)
  then show ?case
    unfolding eq using IH this_one ob by simp
qed

text \<open>
  C2 (amended). A tick that observes only repositories without a watermark (each
  once) records each hash, creates no session and sends nothing. A tick that
  observes a commit whose hash differs from the stored (non-empty) watermark updates
  the watermark; when the summary and the post are generated it stores exactly the
  auto session of the channel with \<open>pendingPost\<close> true and announces it once; when
  the summary or the post cannot be generated it stores no session and sends the
  error instead. A stored watermark is the first seven characters of a commit hash,
  so it is never empty.
\<close>

theorem watermark_seeding_then_one_draft:
  "((\<forall>observation\<in>set tick. lastCheckedCommits st (repo (fst observation)) = None) \<and>
    distinct (map (\<lambda>observation. repo (fst observation)) tick) \<longrightarrow>
      snd (checkForNewCommits cfg tick st) = [] \<and>
      userStates (fst (checkForNewCommits cfg tick st)) = userStates st \<and>
      (\<forall>observation\<in>set tick.
         lastCheckedCommits (fst (checkForNewCommits cfg tick st)) (repo (fst observation))
           = Some (sha (fst observation)))) \<and>
   (lastCheckedCommits st (repo commit) = Some old \<and> old \<noteq> [] \<and> old \<noteq> sha commit \<and>
    generateSummary r0 = Inr summary \<and>
    generatePost (X_CHARACTER_LIMIT cfg) r1 r2
      (Some (deriveProjectName cfg (Some (repo commit)))) = Inr post \<longrightarrow>
      checkForNewCommits cfg [(commit, r0, r1, r2)] st =
        (st\<lparr>lastCheckedCommits := (lastCheckedCommits st)(repo commit \<mapsto> sha commit),
            userStates := (userStates st)
              (autoStateKey (DISCORD_CHANNEL_ID cfg) \<mapsto>
                 \<lparr>commits = [commit], selectedCommits = [commit],
                  generatedSummary = Some summary, generatedPost = Some post,
                  projectName = Some (deriveProjectName cfg (Some (repo commit))),
                  pendingPost = Some True\<rparr>)\<rparr>,
         [GenerateSummaryCall [commit],
          GeneratePostCall summary (deriveProjectName cfg (Some (repo commit))),
          Send (NewCommitDetected (repo commit) post)])) \<and>
   (lastCheckedCommits st (repo commit) = Some old \<and> old \<noteq> [] \<and> old \<noteq> sha commit \<and>
    generateSummary r0 = Inl e \<longrightarrow>
      checkForNewCommits cfg [(commit, r0, r1, r2)] st =
        (st\<lparr>lastCheckedCommits := (lastCheckedCommits st)(repo commit \<mapsto> sha commit)\<rparr>,
         [GenerateSummaryCall [commit], Send (ErrorGeneratingPost e)])) \<and>
   (lastCheckedCommits st (repo commit) = Some old \<and> old \<noteq> [] \<and> old \<noteq> sha commit \<and>
    generateSummary r0 = Inr summary \<and>
    generatePost (X_CHARACTER_LIMIT cfg) r1 r2
      (Some (deriveProjectName cfg (Some (repo commit)))) = Inl e \<longrightarrow>
      checkForNewCommits cfg [(commit, r0, r1, r2)] st =
        (st\<lparr>lastCheckedCommits := (lastCheckedCommits st)(repo commit \<mapsto> sha commit)\<rparr>,
         [GenerateSummaryCall [commit],
          GeneratePostCall summary (deriveProjectName cfg (Some (repo commit))),
          Send (ErrorGeneratingPost e)]))"
proof -
  have seeding: "snd (checkForNewCommits cfg tick st) = [] \<and>
      userStates (fst (checkForNewCommits cfg tick st)) = userStates st \<and>
      (\<forall>observation\<in>set tick.
         lastCheckedCommits (fst (checkForNewCommits cfg tick st)) (repo (fst observation))
           = Some (sha (fst observation)))"
    if "(\<forall>observation\<in>set tick. lastCheckedCommits st (repo (fst observation)) = None) \<and>
        distinct (map (\<lambda>observation. repo (fst observation)) tick)"
    using checkForNewCommits_seed [OF conjunct1 [OF that] conjunct2 [OF that], of cfg] .
  have changed: "checkForNewCommits cfg [(commit, r0, r1, r2)] st =
      processNewCommit cfg commit (r0, r1, r2)
        (st\<lparr>lastCheckedCommits := (lastCheckedCommits st)(repo commit \<mapsto> sha commit)\<rparr>)"
    if "lastCheckedCommits st (repo commit) = Some old" "old \<noteq> []" "old \<noteq> sha commit"
    using observeCommit_trigger [OF that, of cfg "(r0, r1, r2)"] by simp
  have drafted: "checkForNewCommits cfg [(commit, r0, r1, r2)] st =
        (st\<lparr>lastCheckedCommits := (lastCheckedCommits st)(repo commit \<mapsto> sha commit),
            userStates := (userStates st)
              (autoStateKey (DISCORD_CHANNEL_ID cfg) \<mapsto>
                 \<lparr>commits = [commit], selectedCommits = [commit],
                  generatedSummary = Some summary, generatedPost = Some post,
                  projectName = Some (deriveProjectName cfg (Some (repo commit))),
                  pendingPost = Some True\<rparr>)\<rparr>,
         [GenerateSummaryCall [commit],
          GeneratePostCall summary (deriveProjectName cfg (Some (repo commit))),
          Send (NewCommitDetected (repo commit) post)])"
    if "lastCheckedCommits st (repo commit) = Some old \<and> old \<noteq> [] \<and> old \<noteq> sha commit \<and>
        generateSummary r0 = Inr summary \<and>
        generatePost (X_CHARACTER_LIMIT cfg) r1 r2
          (Some (deriveProjectName cfg (Some (repo commit)))) = Inr post"
    using that changed by (simp add: processNewCommit_def Let_def)
  have summaryFailed: "checkForNewCommits cfg [(commit, r0, r1, r2)] st =
        (st\<lparr>lastCheckedCommits := (lastCheckedCommits st)(repo commit \<mapsto> sha commit)\<rparr>,
         [GenerateSummaryCall [commit], Send (ErrorGeneratingPost e)])"
    if "lastCheckedCommits st (repo commit) = Some old \<and> old \<noteq> [] \<and> old \<noteq> sha commit \<and>
        generateSummary r0 = Inl e"
    using that changed by (simp add: processNewCommit_def Let_def)
  have postFailed: "checkForNewCommits cfg [(commit, r0, r1, r2)] st =
        (st\<lparr>lastCheckedCommits := (lastCheckedCommits st)(repo commit \<mapsto> sha commit)\<rparr>,
         [GenerateSummaryCall [commit],
          GeneratePostCall summary (deriveProjectName cfg (Some (repo commit))),
          Send (ErrorGeneratingPost e)])"
    if "lastCheckedCommits st (repo commit) = Some old \<and> old \<noteq> [] \<and> old \<noteq> sha commit \<and>
        generateSummary r0 = Inr summary \<and>
        generatePost (X_CHARACTER_LIMIT cfg) r1 r2
          (Some (deriveProjectName cfg (Some (repo commit)))) = Inl e"
    using that changed by (simp add: processNewCommit_def Let_def)
  show ?thesis using seeding drafted summaryFailed postFailed by blast
qed

theorem watermark_seeding_then_one_draft_witness:
  "snd (checkForNewCommits exampleConfig [(commitA, upReplies)] initialState) = [] \<and>
   lastCheckedCommits (fst (checkForNewCommits exampleConfig [(commitA, upReplies)] initialState))
     (repo commitA) = Some (sha commitA) \<and>
   snd (checkForNewCommits exampleConfig [(commitB, upReplies)] seededState) =
     [GenerateSummaryCall [commitB], GeneratePostCall (js ''The poller was added.'') (js ''Grixo''),
      Send (NewCommitDetected (repo commitB) (js ''Grixo Updates'' @ [0x0A, 0x0A] @ js ''We shipped a poller.''))] \<and>
   checkForNewCommits exampleConfig [(commitB, downReplies)] seededState =
     (seededState\<lparr>lastCheckedCommits :=
        (lastCheckedCommits seededState)(repo commitB \<mapsto> sha commitB)\<rparr>,
      [GenerateSummaryCall [commitB], Send (ErrorGeneratingPost FailedToGenerate)]) \<and>
   checkForNewCommits exampleConfig
       [(commitB, Text (js ''A retry was fixed.''),
         Thrown (Some (js ''429 Too Many Requests'')), Thrown None)] seededState =
     (seededState\<lparr>lastCheckedCommits :=
        (lastCheckedCommits seededState)(repo commitB \<mapsto> sha commitB)\<rparr>,
      [GenerateSummaryCall [commitB], GeneratePostCall (js ''A retry was fixed.'') (js ''Grixo''),
       Send (ErrorGeneratingPost QuotaExceeded)])"
proof -
  have a1: "(\<forall>observation\<in>set [(commitA, upReplies)].
               lastCheckedCommits initialState (repo (fst observation)) = None) \<and>
            distinct (map (\<lambda>observation. repo (fst observation)) [(commitA, upReplies)])"
    by (simp add: initialState_def)
  have b1: "lastCheckedCommits seededState (repo commitB) = Some (js ''aaaaaaa'') \<and>
      js ''aaaaaaa'' \<noteq> [] \<and> js ''aaaaaaa'' \<noteq> sha commitB \<and>
      generateSummary (Text (js ''The poller was added.'')) = Inr (js ''The poller was added.'') \<and>
      generatePost (X_CHARACTER_LIMIT exampleConfig) (Text (js ''We shipped a poller.''))
        (Text (js ''Poller shipped.''))
        (Some (deriveProjectName exampleConfig (Some (repo commitB)))) =
          Inr (js ''Grixo Updates'' @ [0x0A, 0x0A] @ js ''We shipped a poller.'')"
    by code_simp
  have c1: "lastCheckedCommits seededState (repo commitB) = Some (js ''aaaaaaa'') \<and>
      js ''aaaaaaa'' \<noteq> [] \<and> js ''aaaaaaa'' \<noteq> sha commitB \<and>
      generateSummary (Thrown None) = Inl FailedToGenerate"
    by code_simp
  have d1: "lastCheckedCommits seededState (repo commitB) = Some (js ''aaaaaaa'') \<and>
      js ''aaaaaaa'' \<noteq> [] \<and> js ''aaaaaaa'' \<noteq> sha commitB \<and>
      generateSummary (Text (js ''A retry was fixed.'')) = Inr (js ''A retry was fixed.'') \<and>
      generatePost (X_CHARACTER_LIMIT exampleConfig)
        (Thrown (Some (js ''429 Too Many Requests''))) (Thrown None)
        (Some (deriveProjectName exampleConfig (Some (repo commitB)))) = Inl QuotaExceeded"
    by code_simp
  have name: "deriveProjectName exampleConfig (Some (repo commitB)) = js ''Grixo''" by code_simp
  have up: "upReplies = (Text (js ''The poller was added.''), Text (js ''We shipped a poller.''),
                Text (js ''Poller shipped.''))" by (simp add: upReplies_def)
  have down: "downReplies = (Thrown None, Thrown None, Thrown None)" by (simp add: downReplies_def)
  from watermark_seeding_then_one_draft
    [of "[(commitA, upReplies)]" initialState exampleConfig commitA "[]" "NoApiKey" "[]"
        "NoApiKey" "NoApiKey" "[]" ApiKeyNotSet]
    a1
  have seeded: "snd (checkForNewCommits exampleConfig [(commitA, upReplies)] initialState) = [] \<and>
   lastCheckedCommits (fst (checkForNewCommits exampleConfig [(commitA, upReplies)] initialState))
     (repo commitA) = Some (sha commitA)" by simp
  from watermark_seeding_then_one_draft
    [of "[]" seededState exampleConfig commitB "js ''aaaaaaa''" "Text (js ''The poller was added.'')"
        "js ''The poller was added.''" "Text (js ''We shipped a poller.'')" "Text (js ''Poller shipped.'')"
        "js ''Grixo Updates'' @ [0x0A, 0x0A] @ js ''We shipped a poller.''" ApiKeyNotSet] b1
  have drafted: "snd (checkForNewCommits exampleConfig [(commitB, upReplies)] seededState) =
     [GenerateSummaryCall [commitB], GeneratePostCall (js ''The poller was added.'') (js ''Grixo''),
      Send (NewCommitDetected (repo commitB) (js ''Grixo Updates'' @ [0x0A, 0x0A] @ js ''We shipped a poller.''))]"
    unfolding up name by simp
  from watermark_seeding_then_one_draft
    [of "[]" seededState exampleConfig commitB "js ''aaaaaaa''" "Thrown None"
        "[]" "Thrown None" "Thrown None" "[]" FailedToGenerate] c1
  have summaryFailed: "checkForNewCommits exampleConfig [(commitB, downReplies)] seededState =
     (seededState\<lparr>lastCheckedCommits :=
        (lastCheckedCommits seededState)(repo commitB \<mapsto> sha commitB)\<rparr>,
      [GenerateSummaryCall [commitB], Send (ErrorGeneratingPost FailedToGenerate)])"
    unfolding down by blast
  from watermark_seeding_then_one_draft
    [of "[]" seededState exampleConfig commitB "js ''aaaaaaa''" "Text (js ''A retry was fixed.'')"
        "js ''A retry was fixed.''" "Thrown (Some (js ''429 Too Many Requests''))" "Thrown None"
        "[]" QuotaExceeded] d1
  have postFailed: "checkForNewCommits exampleConfig
       [(commitB, Text (js ''A retry was fixed.''),
         Thrown (Some (js ''429 Too Many Requests'')), Thrown None)] seededState =
     (seededState\<lparr>lastCheckedCommits :=
        (lastCheckedCommits seededState)(repo commitB \<mapsto> sha commitB)\<rparr>,
      [GenerateSummaryCall [commitB], GeneratePostCall (js ''A retry was fixed.'') (js ''Grixo''),
       Send (ErrorGeneratingPost QuotaExceeded)])"
    unfolding name by blast
  from seeded drafted summaryFailed postFailed show ?thesis by (intro conjI) blast+
qed

text \<open>
  C2 as stated fails: with the provider down, the tick that sees the changed hash
  updates the watermark, creates no auto session and sends an error instead of the
  draft.
\<close>

theorem watermark_seeding_then_one_draft_counterexample:
  "lastCheckedCommits seededState (repo commitB) = Some (sha commitA) \<and>
   sha commitA \<noteq> sha commitB \<and>
   lastCheckedCommits (fst (checkForNewCommits exampleConfig [(commitB, downReplies)] seededState))
     (repo commitB) = Some (sha commitB) \<and>
   userStates (fst (checkForNewCommits exampleConfig [(commitB, downReplies)] seededState))
     (autoStateKey (DISCORD_CHANNEL_ID exampleConfig)) = None \<and>
   snd (checkForNewCommits exampleConfig [(commitB, downReplies)] seededState) =
     [GenerateSummaryCall [commitB], Send (ErrorGeneratingPost FailedToGenerate)]"
  by code_simp

lemma processNewCommit_once:
  "count_list (snd (processNewCommit cfg commit replies st)) (GenerateSummaryCall [commit]) = 1"
proof -
  obtain r0 r1 r2 where r: "replies = (r0, r1, r2)" by (cases replies) auto
  show ?thesis unfolding r processNewCommit_def by (simp add: Let_def split: sum.splits)
qed

text \<open>
  C9 (amended). When the poller observes a hash different from the stored (non-empty)
  watermark, the draft is made in the state whose watermark is already advanced, it is
  attempted once, and the watermark stays advanced whatever the provider replies; in
  all later ticks in which the repository still shows this hash, the watermark stays
  and no draft is attempted for the repository.
\<close>

theorem watermark_advances_before_drafting:
  assumes "lastCheckedCommits st (repo commit) = Some old"
    and "old \<noteq> []" and "old \<noteq> sha commit"
    and "\<forall>tick\<in>set ticks. \<forall>observation\<in>set tick.
           repo (fst observation) = repo commit \<longrightarrow> sha (fst observation) = sha commit"
  shows "observeCommit cfg (commit, replies) st =
           processNewCommit cfg commit replies
             (st\<lparr>lastCheckedCommits := (lastCheckedCommits st)(repo commit \<mapsto> sha commit)\<rparr>) \<and>
         lastCheckedCommits (fst (observeCommit cfg (commit, replies) st)) (repo commit)
           = Some (sha commit) \<and>
         count_list (snd (observeCommit cfg (commit, replies) st)) (GenerateSummaryCall [commit]) = 1 \<and>
         lastCheckedCommits
           (fst (runTicks cfg ticks (fst (observeCommit cfg (commit, replies) st)))) (repo commit)
           = Some (sha commit) \<and>
         (\<forall>cs. GenerateSummaryCall cs \<in>
                set (snd (runTicks cfg ticks (fst (observeCommit cfg (commit, replies) st)))) \<longrightarrow>
               (\<forall>c\<in>set cs. repo c \<noteq> repo commit))"
proof -
  have trig: "observeCommit cfg (commit, replies) st =
           processNewCommit cfg commit replies
             (st\<lparr>lastCheckedCommits := (lastCheckedCommits st)(repo commit \<mapsto> sha commit)\<rparr>)"
    using assms(1-3) by (rule observeCommit_trigger)
  have adv: "lastCheckedCommits (fst (observeCommit cfg (commit, replies) st)) (repo commit)
           = Some (sha commit)" by (rule observeCommit_advances)
  have once: "count_list (snd (observeCommit cfg (commit, replies) st))
                (GenerateSummaryCall [commit]) = 1"
    unfolding trig by (rule processNewCommit_once)
  from runTicks_no_retry [OF adv assms(4), of cfg] trig adv once show ?thesis by blast
qed

theorem watermark_advances_before_drafting_witness:
  "lastCheckedCommits (fst (observeCommit exampleConfig (commitB, downReplies) seededState))
     (repo commitB) = Some (sha commitB) \<and>
   snd (observeCommit exampleConfig (commitB, downReplies) seededState) =
     [GenerateSummaryCall [commitB], Send (ErrorGeneratingPost FailedToGenerate)] \<and>
   lastCheckedCommits
     (fst (runTicks exampleConfig [[(commitB, upReplies)], [(commitB, upReplies)]]
             (fst (observeCommit exampleConfig (commitB, downReplies) seededState))))
     (repo commitB) = Some (sha commitB) \<and>
   snd (runTicks exampleConfig [[(commitB, upReplies)], [(commitB, upReplies)]]
          (fst (observeCommit exampleConfig (commitB, downReplies) seededState))) = []"
proof -
  have a1: "lastCheckedCommits seededState (repo commitB) = Some (js ''aaaaaaa'')" by code_simp
  have a2: "js ''aaaaaaa'' \<noteq> []" by code_simp
  have a3: "js ''aaaaaaa'' \<noteq> sha commitB" by code_simp
  have a4: "\<forall>tick\<in>set [[(commitB, upReplies)], [(commitB, upReplies)]]. \<forall>observation\<in>set tick.
           repo (fst observation) = repo commitB \<longrightarrow> sha (fst observation) = sha commitB"
    by simp
  have e: "snd (observeCommit exampleConfig (commitB, downReplies) seededState) =
     [GenerateSummaryCall [commitB], Send (ErrorGeneratingPost FailedToGenerate)]" by code_simp
  have l: "snd (runTicks exampleConfig [[(commitB, upReplies)], [(commitB, upReplies)]]
          (fst (observeCommit exampleConfig (commitB, downReplies) seededState))) = []"
    by code_simp
  from watermark_advances_before_drafting [OF a1 a2 a3 a4, of exampleConfig downReplies] e l
  show ?thesis by blast
qed

text \<open>
  C9 as stated fails: when the observed hash of a repository goes from B to A and
  back to B, the hash B is drafted twice.
\<close>

theorem watermark_advances_before_drafting_counterexample:
  "count_list
     (snd (runTicks exampleConfig
             [[(commitB, downReplies)], [(commitA, downReplies)], [(commitB, downReplies)]]
             seededState))
     (GenerateSummaryCall [commitB]) = 2"
  by code_simp

subsection \<open>The commands\<close>

lemma messageCreate_post:
  assumes "\<not> authorBot msg" and "channelId msg = DISCORD_CHANNEL_ID cfg"
    and "trim (content msg) = js ''!post''"
  shows "messageCreate cfg msg w st = postCommand cfg (authorId msg) (channelId msg) w st"
  using assms by (simp add: messageCreate_def Let_def js_def startsWith_def)

lemma messageCreate_repo:
  assumes "\<not> authorBot msg" and "channelId msg = DISCORD_CHANNEL_ID cfg"
    and "startsWith (trim (content msg)) (js ''!repo '')"
  shows "messageCreate cfg msg w st = repoCommand cfg (authorId msg) (trim (content msg)) w st"
proof -
  have "trim (content msg) \<noteq> js ''!help''" "trim (content msg) \<noteq> js ''!run''"
    using assms(3) by (auto simp: js_def startsWith_def)
  then show ?thesis using assms by (simp add: messageCreate_def Let_def)
qed


lemma selected_validSelection:
  "map (\<lambda>i. listed ! i) (List.map_filter (selectIndex (length listed)) entries)
     = validSelection listed entries"
proof (induction entries)
  case Nil
  then show ?case by (simp add: validSelection_def List.map_filter_simps)
next
  case (Cons entry rest)
  have "1 \<le> v \<and> v \<le> int (length listed) \<longleftrightarrow> 0 \<le> v - 1 \<and> v - 1 < int (length listed)"
    for v :: int by auto
  then show ?case using Cons
    by (auto simp: validSelection_def List.map_filter_simps selectIndex_def split: option.splits)
qed



text \<open>\<open>parseInt\<close> reads a decimal numeral as its number.\<close>

lemma digit_cases:
  assumes "k < (10::nat)"
  obtains "k = 0" | "k = 1" | "k = 2" | "k = 3" | "k = 4" | "k = 5" | "k = 6" | "k = 7"
    | "k = 8" | "k = 9"
proof -
  have "k = 0 \<or> k = 1 \<or> k = 2 \<or> k = 3 \<or> k = 4 \<or> k = 5 \<or> k = 6 \<or> k = 7 \<or> k = 8 \<or> k = 9"
    using assms by arith
  then show thesis using that by blast
qed

lemma decimal_digit_props:
  assumes "c \<in> digitChar ` {..<10}"
  shows "isRadixDigit 10 c" and "\<not> isWhiteSpace c" and "c \<noteq> 0x2D" and "c \<noteq> 0x2B"
    and "c \<noteq> 0x78" and "c \<noteq> 0x58" and "c \<noteq> 0x2C"
proof -
  from assms obtain k where k: "k < 10" "c = digitChar k" by auto
  from k(1) show "isRadixDigit 10 c" and "\<not> isWhiteSpace c" and "c \<noteq> 0x2D" and "c \<noteq> 0x2B"
    and "c \<noteq> 0x78" and "c \<noteq> 0x58" and "c \<noteq> 0x2C"
    by (cases k rule: digit_cases;
        simp add: k(2) digitChar_def isRadixDigit_def digitValue_def isWhiteSpace_def)+
qed

lemma digitValue_digit: "k < 10 \<Longrightarrow> digitValue (digitChar k) = Some k"
  by (cases k rule: digit_cases; simp add: digitValue_def digitChar_def)

lemma decimal_digits: "set (decimal n) \<subseteq> digitChar ` {..<10}"
proof (induction n rule: decimal.induct)
  case (1 n)
  show ?case
  proof (cases "n < 10")
    case True
    then show ?thesis by (subst decimal.simps) auto
  next
    case False
    have "n mod 10 < 10" by simp
    then have "digitChar (n mod 10) \<in> digitChar ` {..<10}" by blast
    then show ?thesis using False "1.IH" by (subst decimal.simps) auto
  qed
qed

lemma decimal_nonempty: "decimal n \<noteq> []"
  by (subst decimal.simps) simp

lemma digitsValue_append:
  "digitsValue radix acc (xs @ [c]) =
     digitsValue radix acc xs * int radix + int (case digitValue c of None \<Rightarrow> 0 | Some v \<Rightarrow> v)"
  by (induction xs arbitrary: acc) simp_all

lemma digitsValue_decimal: "digitsValue 10 0 (decimal n) = int n"
proof (induction n rule: decimal.induct)
  case (1 n)
  show ?case
  proof (cases "n < 10")
    case True
    then show ?thesis by (subst decimal.simps) (simp add: digitValue_digit)
  next
    case False
    have "digitsValue 10 0 (decimal n) =
          digitsValue 10 0 (decimal (n div 10)) * 10 + int (n mod 10)"
      using False by (subst decimal.simps) (simp add: digitsValue_append digitValue_digit)
    also have "\<dots> = int (n div 10) * 10 + int (n mod 10)" using False "1.IH" by simp
    also have "\<dots> = int n" by (simp add: zdiv_int zmod_int)
    finally show ?thesis .
  qed
qed

lemma trim_decimal: "trim (decimal n) = decimal n"
proof -
  have ne: "decimal n \<noteq> []" by (rule decimal_nonempty)
  have all: "\<forall>c\<in>set (decimal n). \<not> isWhiteSpace c"
    using decimal_digits decimal_digit_props(2) by blast
  then have "dropWhile isWhiteSpace (decimal n) = decimal n"
    using ne by (cases "decimal n") auto
  moreover have "dropWhile isWhiteSpace (rev (decimal n)) = rev (decimal n)"
    using all ne by (cases "rev (decimal n)") auto
  ultimately show ?thesis by (simp add: trim_def)
qed

lemma parseInt_decimal: "parseInt (decimal n) = Some (int n)"
proof -
  obtain c cs where d: "decimal n = c # cs" using decimal_nonempty by (cases "decimal n") auto
  have all: "\<forall>x\<in>set (c # cs). x \<in> digitChar ` {..<10}" using decimal_digits [of n] d by auto
  have c: "\<not> isWhiteSpace c" "c \<noteq> 0x2D" "c \<noteq> 0x2B"
    using all decimal_digit_props by auto
  have nohex: "\<not> startsWith (c # cs) (js ''0x'')" "\<not> startsWith (c # cs) (js ''0X'')"
  proof -
    have "cs \<noteq> [] \<longrightarrow> hd cs \<noteq> 0x78 \<and> hd cs \<noteq> 0x58"
      using all decimal_digit_props(5,6) by (cases cs) auto
    then show "\<not> startsWith (c # cs) (js ''0x'')" "\<not> startsWith (c # cs) (js ''0X'')"
      by (cases cs; auto simp: startsWith_def js_def)+
  qed
  have tw: "takeWhile (isRadixDigit 10) (c # cs) = c # cs"
    using all decimal_digit_props(1) by (metis takeWhile_eq_all_conv)
  have "parseInt (c # cs) = Some (digitsValue 10 0 (c # cs))"
    using c nohex tw unfolding parseInt_def by (simp add: Let_def)
  then show ?thesis using digitsValue_decimal [of n] d by simp
qed

lemma selectIndex_decimal:
  "selectIndex count (decimal k) = (if 1 \<le> k \<and> k \<le> count then Some (k - 1) else None)"
  by (auto simp: selectIndex_def trim_decimal parseInt_decimal)





text \<open>The select handler once the selection is not empty.\<close>

lemma repoCommand_selected:
  assumes "userStates st userId = Some state" and "commits state \<noteq> []"
    and "selectedIndices (length (commits state)) (trim (drop 6 command)) \<noteq> []"
  shows "repoCommand cfg userId command w st =
     (let selected = validSelection (commits state) (split 0x2C (trim (drop 6 command)));
          state1 = state\<lparr>selectedCommits := selected, pendingPost := Some False\<rparr>
      in case generateSummary (summaryReply w) of
           Inl e \<Rightarrow>
             (setUserState st userId state1, [GenerateSummaryCall selected, Reply (ErrorReply e)])
         | Inr summary \<Rightarrow>
             let name = deriveProjectName cfg
                          (case selected of [] \<Rightarrow> None | c # _ \<Rightarrow> Some (repo c));
                 state3 = state1\<lparr>generatedSummary := Some summary, projectName := Some name\<rparr>
             in case generatePost (X_CHARACTER_LIMIT cfg) (postReply1 w) (postReply2 w)
                       (Some name) of
                  Inl e \<Rightarrow>
                    (setUserState st userId state3,
                     [GenerateSummaryCall selected, GeneratePostCall summary name,
                      Reply (ErrorReply e)])
                | Inr post \<Rightarrow>
                    (setUserState st userId
                       (state3\<lparr>generatedPost := Some post, pendingPost := Some True\<rparr>),
                     [GenerateSummaryCall selected, GeneratePostCall summary name,
                      Reply (SummaryAndPost summary post)]))"
proof -
  have sel: "map (\<lambda>i. commits state ! i)
               (selectedIndices (length (commits state)) (trim (drop 6 command)))
             = validSelection (commits state) (split 0x2C (trim (drop 6 command)))"
    unfolding selectedIndices_def by (rule selected_validSelection)
  show ?thesis
    using assms unfolding repoCommand_def
    by (simp add: Let_def sel split: sum.splits)
qed

text \<open>
  C3 (amended). \<open>!post\<close> publishes the user's session's post when that is not empty,
  else the post of the channel's auto session when that is not empty, whatever
  \<open>pendingPost\<close> is; when neither exists it only replies, without calling the
  publisher and without changing the state; when the publisher succeeds the session
  is deleted, and when it fails the state is unchanged.
\<close>

theorem publish_gate:
  assumes "\<not> authorBot msg" and "channelId msg = DISCORD_CHANNEL_ID cfg"
    and "trim (content msg) = js ''!post''"
  shows
   "(\<forall>state p. userStates st (authorId msg) = Some state \<and> generatedPost state = Some p \<and> p \<noteq> [] \<longrightarrow>
       messageCreate cfg msg w st =
         (case postToX (X_CHARACTER_LIMIT cfg) (posting w) p of
            None \<Rightarrow> (st\<lparr>userStates := (userStates st)(authorId msg := None)\<rparr>,
                     [PostToXCall p, Reply PostedToX])
          | Some e \<Rightarrow> (st, [PostToXCall p, Reply (ErrorPosting e)]))) \<and>
    (\<forall>state p. (\<forall>u. userStates st (authorId msg) = Some u \<longrightarrow> \<not> truthy (generatedPost u)) \<and>
        userStates st (autoStateKey (channelId msg)) = Some state \<and>
        generatedPost state = Some p \<and> p \<noteq> [] \<longrightarrow>
       messageCreate cfg msg w st =
         (case postToX (X_CHARACTER_LIMIT cfg) (posting w) p of
            None \<Rightarrow> (st\<lparr>userStates := (userStates st)(autoStateKey (channelId msg) := None)\<rparr>,
                     [PostToXCall p, Reply PostedToX])
          | Some e \<Rightarrow> (st, [PostToXCall p, Reply (ErrorPosting e)]))) \<and>
    ((\<forall>u. userStates st (authorId msg) = Some u \<longrightarrow> \<not> truthy (generatedPost u)) \<and>
     (\<forall>a. userStates st (autoStateKey (channelId msg)) = Some a \<longrightarrow> \<not> truthy (generatedPost a)) \<longrightarrow>
       messageCreate cfg msg w st = (st, [Reply NoPostGenerated]))"
proof -
  have eq: "messageCreate cfg msg w st = postCommand cfg (authorId msg) (channelId msg) w st"
    using assms by (rule messageCreate_post)
  show ?thesis
    unfolding eq postCommand_def publishAndDelete_def deleteUserState_def present_def truthy_def
    by (auto simp: Let_def split: option.splits)
qed


theorem publish_gate_witness:
  "userStates (fst (messageCreate exampleConfig (say ''!post'') providerUp draftedState)) (js ''7'')
     = None \<and>
   snd (messageCreate exampleConfig (say ''!post'') providerUp draftedState) =
     [PostToXCall (js ''Grixo Updates'' @ [0x0A, 0x0A] @ js ''We shipped a poller.''),
      Reply PostedToX] \<and>
   messageCreate exampleConfig (say ''!post'') providerUp initialState =
     (initialState, [Reply NoPostGenerated])"
proof -
  have e1: "\<not> authorBot (say ''!post'')" by code_simp
  have e2: "channelId (say ''!post'') = DISCORD_CHANNEL_ID exampleConfig" by code_simp
  have e3: "trim (content (say ''!post'')) = js ''!post''" by code_simp
  have u: "userStates draftedState (authorId (say ''!post''))
             = Some (the (userStates draftedState (js ''7''))) \<and>
           generatedPost (the (userStates draftedState (js ''7'')))
             = Some (js ''Grixo Updates'' @ [0x0A, 0x0A] @ js ''We shipped a poller.'') \<and>
           js ''Grixo Updates'' @ [0x0A, 0x0A] @ js ''We shipped a poller.'' \<noteq> []"
    by code_simp
  have x: "postToX (X_CHARACTER_LIMIT exampleConfig) (posting providerUp)
             (js ''Grixo Updates'' @ [0x0A, 0x0A] @ js ''We shipped a poller.'') = None"
    by code_simp
  have n: "(\<forall>u. userStates initialState (authorId (say ''!post'')) = Some u \<longrightarrow>
               \<not> truthy (generatedPost u)) \<and>
           (\<forall>a. userStates initialState (autoStateKey (channelId (say ''!post''))) = Some a \<longrightarrow>
               \<not> truthy (generatedPost a))"
    by (simp add: initialState_def)
  have id: "authorId (say ''!post'') = js ''7''" by code_simp
  from publish_gate [OF e1 e2 e3, of draftedState providerUp] u x
  have "messageCreate exampleConfig (say ''!post'') providerUp draftedState =
      (draftedState\<lparr>userStates := (userStates draftedState)(authorId (say ''!post'') := None)\<rparr>,
       [PostToXCall (js ''Grixo Updates'' @ [0x0A, 0x0A] @ js ''We shipped a poller.''),
        Reply PostedToX])"
    by (metis (no_types, lifting) option.simps(4))
  then have "userStates (fst (messageCreate exampleConfig (say ''!post'') providerUp draftedState))
       (js ''7'') = None \<and>
     snd (messageCreate exampleConfig (say ''!post'') providerUp draftedState) =
       [PostToXCall (js ''Grixo Updates'' @ [0x0A, 0x0A] @ js ''We shipped a poller.''),
        Reply PostedToX]"
    by (simp add: id)
  moreover from publish_gate [OF e1 e2 e3, of initialState providerUp] n
  have "messageCreate exampleConfig (say ''!post'') providerUp initialState =
     (initialState, [Reply NoPostGenerated])" by blast
  ultimately show ?thesis by simp
qed

text \<open>
  C3 as stated fails: after a re-selection during which the provider was down, the
  session has \<open>pendingPost\<close> false and still holds the earlier post, and \<open>!post\<close>
  publishes it.
\<close>

theorem publish_gate_counterexample:
  "map_option pendingPost (userStates staleState (js ''7'')) = Some (Some False) \<and>
   map_option selectedCommits (userStates staleState (js ''7'')) = Some [commitB] \<and>
   snd (messageCreate exampleConfig (say ''!post'') providerUp staleState) =
     [PostToXCall (js ''Grixo Updates'' @ [0x0A, 0x0A] @ js ''We shipped a poller.''),
      Reply PostedToX]"
  by code_simp

text \<open>
  C4 (amended). When the summary or the post cannot be generated during a valid
  select, the error is replied and no post is stored, but the session is changed: it
  holds the new selection and \<open>pendingPost\<close> false, and after a failure of the post
  also the new summary and project name; \<open>generatedPost\<close> keeps its earlier value.
\<close>

theorem select_failure_state:
  assumes "\<not> authorBot msg" and "channelId msg = DISCORD_CHANNEL_ID cfg"
    and "startsWith (trim (content msg)) (js ''!repo '')"
    and "userStates st (authorId msg) = Some state" and "commits state \<noteq> []"
    and "selected = validSelection (commits state)
                      (split 0x2C (trim (drop 6 (trim (content msg)))))"
    and "selected \<noteq> []"
    and "name = deriveProjectName cfg (Some (repo (hd selected)))"
  shows
   "(\<forall>e. generateSummary (summaryReply w) = Inl e \<longrightarrow>
       messageCreate cfg msg w st =
         (st\<lparr>userStates := (userStates st)(authorId msg \<mapsto>
               state\<lparr>selectedCommits := selected, pendingPost := Some False\<rparr>)\<rparr>,
          [GenerateSummaryCall selected, Reply (ErrorReply e)])) \<and>
    (\<forall>summary e. generateSummary (summaryReply w) = Inr summary \<and>
       generatePost (X_CHARACTER_LIMIT cfg) (postReply1 w) (postReply2 w) (Some name) = Inl e \<longrightarrow>
       messageCreate cfg msg w st =
         (st\<lparr>userStates := (userStates st)(authorId msg \<mapsto>
               state\<lparr>selectedCommits := selected, pendingPost := Some False,
                     generatedSummary := Some summary, projectName := Some name\<rparr>)\<rparr>,
          [GenerateSummaryCall selected, GeneratePostCall summary name, Reply (ErrorReply e)]))"
proof -
  have idx: "selectedIndices (length (commits state)) (trim (drop 6 (trim (content msg)))) \<noteq> []"
  proof
    assume "selectedIndices (length (commits state)) (trim (drop 6 (trim (content msg)))) = []"
    then have "List.map_filter (selectIndex (length (commits state)))
                 (split 0x2C (trim (drop 6 (trim (content msg))))) = []"
      by (simp add: selectedIndices_def)
    then have "selected = []"
      using selected_validSelection
        [of "commits state" "split 0x2C (trim (drop 6 (trim (content msg))))"] assms(6)
      by simp
    then show False using assms(7) by simp
  qed
  have hd: "(case selected of [] \<Rightarrow> None | c # _ \<Rightarrow> Some (repo c)) = Some (repo (hd selected))"
    using assms(7) by (cases selected) auto
  have eq: "messageCreate cfg msg w st = repoCommand cfg (authorId msg) (trim (content msg)) w st"
    using assms(1-3) by (rule messageCreate_repo)
  show ?thesis
    unfolding eq repoCommand_selected [OF assms(4,5) idx] assms(6) [symmetric]
    by (simp add: Let_def hd assms(8) setUserState_def)
qed

theorem select_failure_state_witness:
  "map_option selectedCommits
     (userStates (fst (messageCreate exampleConfig (say ''!repo 2'') providerDown draftedState))
        (js ''7'')) = Some [commitB] \<and>
   snd (messageCreate exampleConfig (say ''!repo 2'') providerDown draftedState) =
     [GenerateSummaryCall [commitB], Reply (ErrorReply FailedToGenerate)] \<and>
   map_option generatedSummary
     (userStates (fst (messageCreate exampleConfig (say ''!repo 2'') composerDown draftedState))
        (js ''7'')) = Some (Some (js ''A retry was fixed.'')) \<and>
   snd (messageCreate exampleConfig (say ''!repo 2'') composerDown draftedState) =
     [GenerateSummaryCall [commitB], GeneratePostCall (js ''A retry was fixed.'') (js ''Grixo''),
      Reply (ErrorReply QuotaExceeded)]"
proof -
  have e1: "\<not> authorBot (say ''!repo 2'')" by code_simp
  have e2: "channelId (say ''!repo 2'') = DISCORD_CHANNEL_ID exampleConfig" by code_simp
  have e3: "startsWith (trim (content (say ''!repo 2''))) (js ''!repo '')" by code_simp
  have e4: "userStates draftedState (authorId (say ''!repo 2''))
              = Some (the (userStates draftedState (js ''7'')))" by code_simp
  have e5: "commits (the (userStates draftedState (js ''7''))) \<noteq> []" by code_simp
  have e6: "[commitB] = validSelection (commits (the (userStates draftedState (js ''7''))))
                      (split 0x2C (trim (drop 6 (trim (content (say ''!repo 2''))))))"
    by code_simp
  have e7: "[commitB] \<noteq> []" by simp
  have e8: "js ''Grixo'' = deriveProjectName exampleConfig (Some (repo (hd [commitB])))"
    by code_simp
  have f1: "generateSummary (summaryReply providerDown) = Inl FailedToGenerate" by code_simp
  have f2: "generateSummary (summaryReply composerDown) = Inr (js ''A retry was fixed.'') \<and>
            generatePost (X_CHARACTER_LIMIT exampleConfig) (postReply1 composerDown)
              (postReply2 composerDown) (Some (js ''Grixo'')) = Inl QuotaExceeded" by code_simp
  have id: "authorId (say ''!repo 2'') = js ''7''" by code_simp
  have "messageCreate exampleConfig (say ''!repo 2'') providerDown draftedState =
         (draftedState\<lparr>userStates := (userStates draftedState)(authorId (say ''!repo 2'') \<mapsto>
               (the (userStates draftedState (js ''7'')))
                 \<lparr>selectedCommits := [commitB], pendingPost := Some False\<rparr>)\<rparr>,
          [GenerateSummaryCall [commitB], Reply (ErrorReply FailedToGenerate)])"
    using select_failure_state [OF e1 e2 e3 e4 e5 e6 e7 e8, of providerDown] f1 by blast
  moreover have "messageCreate exampleConfig (say ''!repo 2'') composerDown draftedState =
         (draftedState\<lparr>userStates := (userStates draftedState)(authorId (say ''!repo 2'') \<mapsto>
               (the (userStates draftedState (js ''7'')))
                 \<lparr>selectedCommits := [commitB], pendingPost := Some False,
                  generatedSummary := Some (js ''A retry was fixed.''),
                  projectName := Some (js ''Grixo'')\<rparr>)\<rparr>,
          [GenerateSummaryCall [commitB], GeneratePostCall (js ''A retry was fixed.'') (js ''Grixo''),
           Reply (ErrorReply QuotaExceeded)])"
    using select_failure_state [OF e1 e2 e3 e4 e5 e6 e7 e8, of composerDown] f2 by blast
  ultimately show ?thesis by (simp add: id)
qed

text \<open>
  C4 as stated fails: the provider is down during \<open>!repo 2\<close>, and the session's
  selection and \<open>pendingPost\<close> are changed all the same.
\<close>

theorem select_failure_state_counterexample:
  "map_option selectedCommits (userStates draftedState (js ''7'')) = Some [commitA] \<and>
   map_option pendingPost (userStates draftedState (js ''7'')) = Some (Some True) \<and>
   snd (messageCreate exampleConfig (say ''!repo 2'') providerDown draftedState) =
     [GenerateSummaryCall [commitB], Reply (ErrorReply FailedToGenerate)] \<and>
   map_option selectedCommits
     (userStates (fst (messageCreate exampleConfig (say ''!repo 2'') providerDown draftedState))
        (js ''7'')) = Some [commitB] \<and>
   map_option pendingPost
     (userStates (fst (messageCreate exampleConfig (say ''!repo 2'') providerDown draftedState))
        (js ''7'')) = Some (Some False)"
  by code_simp






end
